theory Spec2Isabelle
  imports Complex_Main "HOL-Library.AList" "HOL-Library.Multiset"
begin

section \<open>Vehicle tracker (core/detectors/traffic\_detector.py, class ONNXVehicleTracker)\<close>

text \<open>
  Python ints are modelled as \<open>int\<close>, Python floats as \<open>real\<close> (no NaN, no infinity). The
  arithmetic of \<open>_smooth_bbox\<close>, whose result goes through \<open>int()\<close>, is rounded to double
  precision as the program computes it; comparisons and the other arithmetic are over the
  reals.
  A Python \<open>dict\<close> keeps its keys in insertion order: assigning to a key that is present
  keeps its position, assigning to a new key appends it, \<open>del\<close> removes it. That is what
  \<open>AList.update\<close> and \<open>AList.delete\<close> do on an association list, with \<open>map_of\<close> as lookup,
  so every dict of the tracker is an association list and \<open>map fst\<close> is \<open>list(d.keys())\<close>.
  A raised exception is a value \<open>Inl e\<close>.
\<close>

datatype error = KeyError | IndexError | ValueError | ZeroDivisionError

type_synonym point = "real \<times> real"
type_synonym bbox = "real \<times> real \<times> real \<times> real"

subsection \<open>Double-precision arithmetic\<close>

text \<open>An IEEE 754 double operation returns the exact result rounded to the nearest number
  with a 53-bit significand, ties to the even significand. The exponent range is not bounded
  here (no overflow to infinity, no subnormal numbers), which is what the hardware does for
  magnitudes between \<open>2 ^ -1022\<close> and \<open>2 ^ 1024\<close>.\<close>

text \<open>\<open>2 ^ k\<close> for an integer \<open>k\<close>.\<close>

definition pow2 :: "int \<Rightarrow> real" where
  "pow2 k = (if 0 \<le> k then 2 ^ nat k else 1 / 2 ^ nat (- k))"

text \<open>Rounding to the nearest integer, ties to even.\<close>

definition round_half_even :: "real \<Rightarrow> int" where
  "round_half_even r =
     (let f = \<lfloor>r\<rfloor>; d = r - real_of_int f
      in if d < 1 / 2 then f else if 1 / 2 < d then f + 1
         else if even f then f else f + 1)"

text \<open>The binary exponent \<open>e\<close> of a non-zero number: \<open>2 ^ e \<le> |x| < 2 ^ (e + 1)\<close>.\<close>

function binary_exponent :: "real \<Rightarrow> int" where
  "binary_exponent x =
     (if x = 0 then 0
      else if 2 \<le> \<bar>x\<bar> then binary_exponent (x / 2) + 1
      else if \<bar>x\<bar> < 1 then binary_exponent (2 * x) - 1
      else 0)"
  by pat_completeness auto
termination
proof (relation "measure (\<lambda>x. nat \<bar>\<lfloor>log 2 \<bar>x\<bar>\<rfloor>\<bar>)")
  show "wf (measure (\<lambda>x. nat \<bar>\<lfloor>log 2 \<bar>x\<bar>\<rfloor>\<bar>))" by simp
next
  fix x :: real
  assume "x \<noteq> 0" and ge: "2 \<le> \<bar>x\<bar>"
  then have "log 2 \<bar>x / 2\<bar> = log 2 \<bar>x\<bar> - 1"
    by (simp add: log_divide)
  moreover have "1 \<le> log 2 \<bar>x\<bar>" using ge by (simp add: le_log_iff)
  ultimately show "(x / 2, x) \<in> measure (\<lambda>x. nat \<bar>\<lfloor>log 2 \<bar>x\<bar>\<rfloor>\<bar>)"
    by simp
next
  fix x :: real
  assume nz: "x \<noteq> 0" and "\<not> 2 \<le> \<bar>x\<bar>" and lt: "\<bar>x\<bar> < 1"
  then have "log 2 \<bar>2 * x\<bar> = log 2 \<bar>x\<bar> + 1"
    by (simp add: abs_mult log_mult)
  moreover have "log 2 \<bar>x\<bar> < 0" using lt nz by simp
  then have "\<lfloor>log 2 \<bar>x\<bar>\<rfloor> \<le> - 1" by linarith
  ultimately show "(2 * x, x) \<in> measure (\<lambda>x. nat \<bar>\<lfloor>log 2 \<bar>x\<bar>\<rfloor>\<bar>)"
    by simp
qed

declare binary_exponent.simps [simp del]

text \<open>The nearest double: the significand is scaled to an integer of 53 bits, rounded, and
  scaled back. A float literal such as \<open>0.65\<close> denotes \<open>double_round 0.65\<close>.\<close>

definition double_round :: "real \<Rightarrow> real" where
  "double_round x =
     (if x = 0 then 0
      else let e = binary_exponent x
           in real_of_int (round_half_even (x * pow2 (52 - e))) * pow2 (e - 52))"

text \<open>The float operations \<open>x * y\<close>, \<open>x + y\<close> and \<open>x - y\<close> on doubles.\<close>

definition float_mul :: "real \<Rightarrow> real \<Rightarrow> real" where
  "float_mul x y = double_round (x * y)"

definition float_add :: "real \<Rightarrow> real \<Rightarrow> real" where
  "float_add x y = double_round (x + y)"

definition float_sub :: "real \<Rightarrow> real \<Rightarrow> real" where
  "float_sub x y = double_round (x - y)"

subsection \<open>Data\<close>

text \<open>A detection dict handed to the tracker: \<open>det['bbox']\<close>, \<open>det['confidence']\<close> and the
  optional key \<open>'class_name'\<close> (read with \<open>det.get('class_name', 'vehicle')\<close>).\<close>

record detection =
  bbox :: bbox
  confidence :: real
  class_name :: "string option"

text \<open>The value stored in \<open>self.objects[id]\<close>.\<close>

record tracked_object =
  obj_bbox :: bbox
  obj_class :: string
  obj_confidence :: real
  obj_history :: "bbox list"

text \<open>The attributes of \<open>ONNXVehicleTracker\<close>; the colour palette and \<open>track_colors\<close>, used
  only for drawing, are left out.\<close>

record tracker =
  next_id :: int
  objects :: "(int \<times> tracked_object) list"
  disappeared :: "(int \<times> int) list"
  max_disappeared :: int
  max_distance :: real
  smoothing_factor :: real
  history_length :: int
  counted_vehicles :: "int set"
  total_count :: int
  trajectory_points :: "(int \<times> point list) list"
  max_trajectory_length :: nat
  crossed_ids :: "int set"
  line_y :: "int option"
  counted_ids :: "int set"
  zone_entry_positions :: "(int \<times> real) list"
  min_movement_to_count :: real

text \<open>\<open>ONNXVehicleTracker.__init__(max_disappeared, max_distance)\<close>.\<close>

definition init_tracker :: "int \<Rightarrow> real \<Rightarrow> tracker" where
  "init_tracker max_disappeared_arg max_distance_arg =
     \<lparr> next_id = 0, objects = [], disappeared = [],
       max_disappeared = max_disappeared_arg, max_distance = max_distance_arg,
       smoothing_factor = double_round 0.65, history_length = 7,
       counted_vehicles = {}, total_count = 0,
       trajectory_points = [], max_trajectory_length = 20,
       crossed_ids = {}, line_y = None,
       counted_ids = {}, zone_entry_positions = [],
       min_movement_to_count = 50 \<rparr>"

text \<open>\<open>_get_center\<close>.\<close>

definition get_center :: "bbox \<Rightarrow> point" where
  "get_center b = (case b of (x1, y1, x2, y2) \<Rightarrow> ((x1 + x2) / 2, (y1 + y2) / 2))"

text \<open>Python's \<open>int(x)\<close> on a float: truncation toward zero.\<close>

definition py_int :: "real \<Rightarrow> int" where
  "py_int x = (if 0 \<le> x then \<lfloor>x\<rfloor> else \<lceil>x\<rceil>)"

text \<open>\<open>_smooth_bbox\<close>: \<open>int(old * (1 - self.smoothing_factor) + new * self.smoothing_factor)\<close>
  for each pair of coordinates, with the float operations in the order in which Python
  evaluates them. The coordinates and the factor are doubles in the program.\<close>

definition smooth_coord :: "real \<Rightarrow> real \<Rightarrow> real \<Rightarrow> real" where
  "smooth_coord a old new =
     real_of_int (py_int (float_add (float_mul old (float_sub 1 a)) (float_mul new a)))"

definition smooth_bbox :: "tracker \<Rightarrow> bbox \<Rightarrow> bbox \<Rightarrow> bbox" where
  "smooth_bbox s old_bbox new_bbox =
     (case old_bbox of (o1, o2, o3, o4) \<Rightarrow>
      case new_bbox of (n1, n2, n3, n4) \<Rightarrow>
        (smooth_coord (smoothing_factor s) o1 n1, smooth_coord (smoothing_factor s) o2 n2,
         smooth_coord (smoothing_factor s) o3 n3, smooth_coord (smoothing_factor s) o4 n4))"

text \<open>\<open>deque(maxlen=n).append(x)\<close>: the oldest element is dropped when the deque is full.\<close>

definition deque_append :: "nat \<Rightarrow> 'a list \<Rightarrow> 'a \<Rightarrow> 'a list" where
  "deque_append n xs x = drop (length xs + 1 - n) (xs @ [x])"

text \<open>\<open>_update_trajectory\<close>. Every deque is created with \<open>maxlen=self.max_trajectory_length\<close>,
  an attribute that is never reassigned, so the bound is read from the tracker.\<close>

definition update_trajectory :: "tracker \<Rightarrow> int \<Rightarrow> bbox \<Rightarrow> tracker" where
  "update_trajectory s object_id b =
     (let pts = (case map_of (trajectory_points s) object_id of None \<Rightarrow> [] | Some p \<Rightarrow> p)
      in s\<lparr>trajectory_points :=
             AList.update object_id (deque_append (max_trajectory_length s) pts (get_center b))
               (trajectory_points s)\<rparr>)"

text \<open>\<open>_register\<close>: returns the id it assigned, with the new state.\<close>

definition register :: "tracker \<Rightarrow> detection \<Rightarrow> int \<times> tracker" where
  "register s det =
     (let object_id = next_id s;
          s1 = s\<lparr>next_id := next_id s + 1\<rparr>;
          s2 = s1\<lparr>objects := AList.update object_id
                  \<lparr> obj_bbox = bbox det,
                    obj_class = (case class_name det of None \<Rightarrow> ''vehicle'' | Some c \<Rightarrow> c),
                    obj_confidence = confidence det,
                    obj_history = [bbox det] \<rparr> (objects s1)\<rparr>;
          s3 = s2\<lparr>disappeared := AList.update object_id 0 (disappeared s2)\<rparr>;
          s4 = s3\<lparr>trajectory_points := AList.update object_id [] (trajectory_points s3)\<rparr>
      in (object_id, update_trajectory s4 object_id (bbox det)))"

text \<open>\<open>_deregister\<close>.\<close>

definition deregister :: "tracker \<Rightarrow> int \<Rightarrow> tracker" where
  "deregister s object_id =
     s\<lparr>objects := AList.delete object_id (objects s),
       disappeared := AList.delete object_id (disappeared s),
       trajectory_points := AList.delete object_id (trajectory_points s)\<rparr>"

text \<open>\<open>np.linalg.norm(np.array(p) - np.array(q))\<close> for two points.\<close>

definition euclid_dist :: "point \<Rightarrow> point \<Rightarrow> real" where
  "euclid_dist p q = sqrt ((fst p - fst q)\<^sup>2 + (snd p - snd q)\<^sup>2)"

text \<open>The inner loop of \<open>update\<close> over \<open>enumerate(detection_centers)\<close>. The accumulator is
  \<open>(min_dist, best_match)\<close>: \<open>None\<close> for \<open>min_dist\<close> is \<open>float('inf')\<close>, \<open>None\<close> for
  \<open>best_match\<close> is the sentinel \<open>-1\<close>.\<close>

fun best_match_loop ::
  "real \<Rightarrow> nat set \<Rightarrow> point \<Rightarrow> (nat \<times> point) list \<Rightarrow> real option \<times> nat option
     \<Rightarrow> real option \<times> nat option" where
  "best_match_loop maxd matched_detections obj_center [] acc = acc"
| "best_match_loop maxd matched_detections obj_center ((j, det_center) # rest) (min_dist, best_match) =
     (if j \<in> matched_detections
      then best_match_loop maxd matched_detections obj_center rest (min_dist, best_match)
      else
        let d = euclid_dist obj_center det_center in
        if (case min_dist of None \<Rightarrow> True | Some m \<Rightarrow> d < m) \<and> d < maxd
        then best_match_loop maxd matched_detections obj_center rest (Some d, Some j)
        else best_match_loop maxd matched_detections obj_center rest (min_dist, best_match))"

text \<open>A \<open>for\<close> loop whose body may raise: the first exception ends the loop.\<close>

fun for_each :: "('a \<Rightarrow> 'b \<Rightarrow> error + 'b) \<Rightarrow> 'a list \<Rightarrow> 'b \<Rightarrow> error + 'b" where
  "for_each body [] acc = Inr acc"
| "for_each body (x # xs) acc =
     (case body x acc of Inl e \<Rightarrow> Inl e | Inr acc' \<Rightarrow> for_each body xs acc')"

text \<open>The body of the matching loop of \<open>update\<close> for one entry of
  \<open>enumerate(object_ids)\<close>, with the centre computed before the loop. The index
  \<open>best_match\<close> comes from the enumeration of the detections, so \<open>detections ! best\<close> is in
  range.\<close>

definition match_track ::
  "detection list \<Rightarrow> point list \<Rightarrow> int \<times> point \<Rightarrow> tracker \<times> nat set \<times> int set
     \<Rightarrow> error + (tracker \<times> nat set \<times> int set)" where
  "match_track detections detection_centers entry st =
     (case entry of (obj_id, obj_center) \<Rightarrow>
      case st of (s, matched_detections, matched_objects) \<Rightarrow>
        if obj_id \<in> matched_objects then Inr st
        else
          (case snd (best_match_loop (max_distance s) matched_detections obj_center
                      (List.enumerate 0 detection_centers) (None, None)) of
            None \<Rightarrow> Inr st
          | Some best \<Rightarrow>
              (case map_of (objects s) obj_id of
                 None \<Rightarrow> Inl KeyError
               | Some ob \<Rightarrow>
                   let det = detections ! best;
                       smoothed_bbox = smooth_bbox s (obj_bbox ob) (bbox det);
                       s1 = s\<lparr>objects := AList.update obj_id
                              (ob\<lparr>obj_bbox := smoothed_bbox,
                                  obj_class := (case class_name det of None \<Rightarrow> ''vehicle'' | Some c \<Rightarrow> c),
                                  obj_confidence := confidence det\<rparr>) (objects s)\<rparr>;
                       s2 = s1\<lparr>disappeared := AList.update obj_id 0 (disappeared s1)\<rparr>;
                       s3 = update_trajectory s2 obj_id smoothed_bbox
                   in Inr (s3, insert best matched_detections, insert obj_id matched_objects))))"

text \<open>The matching loop over the given \<open>(obj_id, obj_center)\<close> entries.\<close>

definition match_phase ::
  "(int \<times> point) list \<Rightarrow> detection list \<Rightarrow> tracker \<Rightarrow> error + (tracker \<times> nat set \<times> int set)" where
  "match_phase entries detections s =
     for_each (match_track detections (map (\<lambda>d. get_center (bbox d)) detections))
       entries (s, {}, {})"

text \<open>\<open>for det in detections: self._register(det)\<close> and
  \<open>for i, det in enumerate(detections): if i not in matched_detections: self._register(det)\<close>.
  Besides the state, the model returns the ids that the calls of \<open>_register\<close> returned, in
  call order.\<close>

fun register_unmatched ::
  "nat set \<Rightarrow> (nat \<times> detection) list \<Rightarrow> tracker \<times> int list \<Rightarrow> tracker \<times> int list" where
  "register_unmatched matched_detections [] acc = acc"
| "register_unmatched matched_detections ((i, det) # rest) (s, ids) =
     (if i \<notin> matched_detections
      then (case register s det of (oid, s') \<Rightarrow>
              register_unmatched matched_detections rest (s', ids @ [oid]))
      else register_unmatched matched_detections rest (s, ids))"

text \<open>\<open>self.disappeared[obj_id] += 1\<close> followed by the deregistration test.\<close>

definition mark_disappeared :: "int \<Rightarrow> tracker \<Rightarrow> error + tracker" where
  "mark_disappeared obj_id s =
     (case map_of (disappeared s) obj_id of
        None \<Rightarrow> Inl KeyError
      | Some n \<Rightarrow>
          let s1 = s\<lparr>disappeared := AList.update obj_id (n + 1) (disappeared s)\<rparr>
          in Inr (if n + 1 > max_disappeared s1 then deregister s1 obj_id else s1))"

text \<open>The rest of \<open>update\<close> after the matching loop: unmatched detections are registered,
  then every object that is not in \<open>matched_objects\<close> is marked.\<close>

definition finish_update ::
  "detection list \<Rightarrow> tracker \<times> nat set \<times> int set \<Rightarrow> error + (tracker \<times> int list)" where
  "finish_update detections st =
     (case st of (s1, matched_detections, matched_objects) \<Rightarrow>
      case register_unmatched matched_detections (List.enumerate 0 detections) (s1, []) of
        (s2, ids) \<Rightarrow>
          (case for_each (\<lambda>obj_id s. if obj_id \<notin> matched_objects
                                       then mark_disappeared obj_id s else Inr s)
                  (map fst (objects s2)) s2 of
             Inl e \<Rightarrow> Inl e
           | Inr s3 \<Rightarrow> Inr (s3, ids)))"

text \<open>The \<open>(obj_id, obj_center)\<close> pairs that \<open>update\<close> iterates:
  \<open>object_ids = list(self.objects.keys())\<close> with the centre of each object's box.\<close>

definition object_entries :: "tracker \<Rightarrow> (int \<times> point) list" where
  "object_entries s = map (\<lambda>(obj_id, ob). (obj_id, get_center (obj_bbox ob))) (objects s)"

text \<open>\<open>update\<close>, returning the new state and the ids registered during the call.\<close>

definition update_reg :: "tracker \<Rightarrow> detection list \<Rightarrow> error + (tracker \<times> int list)" where
  "update_reg s detections =
     (if length detections = 0 then
        (case for_each mark_disappeared (map fst (disappeared s)) s of
           Inl e \<Rightarrow> Inl e
         | Inr s' \<Rightarrow> Inr (s', []))
      else if length (objects s) = 0 then
        Inr (register_unmatched {} (List.enumerate 0 detections) (s, []))
      else
        (case match_phase (object_entries s) detections s of
           Inl e \<Rightarrow> Inl e
         | Inr st \<Rightarrow> finish_update detections st))"

definition update :: "tracker \<Rightarrow> detection list \<Rightarrow> error + tracker" where
  "update s detections =
     (case update_reg s detections of Inl e \<Rightarrow> Inl e | Inr (s', ids) \<Rightarrow> Inr s')"

text \<open>\<open>check_zone_counting\<close>: the result and the new state.\<close>

definition check_zone_counting :: "tracker \<Rightarrow> int \<Rightarrow> bool \<times> tracker" where
  "check_zone_counting s object_id =
     (if object_id \<in> counted_ids s then (False, s)
      else
        case map_of (trajectory_points s) object_id of
          None \<Rightarrow> (False, s)
        | Some points \<Rightarrow>
            if length points < 5 then (False, s)
            else
              let s1 = (case map_of (zone_entry_positions s) object_id of
                          None \<Rightarrow> s\<lparr>zone_entry_positions :=
                                      AList.update object_id (snd (points ! 0)) (zone_entry_positions s)\<rparr>
                        | Some e \<Rightarrow> s);
                  entry_y = (case map_of (zone_entry_positions s1) object_id of
                               None \<Rightarrow> snd (points ! 0) | Some e \<Rightarrow> e);
                  current_y = snd (last points);
                  movement = current_y - entry_y
              in if movement \<ge> min_movement_to_count s1
                 then (True, s1\<lparr>counted_ids := insert object_id (counted_ids s1)\<rparr>)
                 else (False, s1))"

text \<open>\<open>check_line_crossing\<close>.\<close>

definition check_line_crossing :: "tracker \<Rightarrow> int \<Rightarrow> int \<Rightarrow> bool \<times> tracker" where
  "check_line_crossing s object_id line_y_arg =
     (if object_id \<in> crossed_ids s then (False, s)
      else
        case map_of (trajectory_points s) object_id of
          None \<Rightarrow> (False, s)
        | Some points \<Rightarrow>
            if length points < 2 then (False, s)
            else
              let y_prev = snd (points ! (length points - 2));
                  y_curr = snd (last points);
                  l = real_of_int line_y_arg
              in if (y_prev > l \<and> l \<ge> y_curr) \<or> (y_prev \<le> l \<and> l < y_curr)
                 then (True, s\<lparr>crossed_ids := insert object_id (crossed_ids s)\<rparr>)
                 else (False, s))"

section \<open>Counting in the frame loop (ONNXTrafficDetector.process\_frame)\<close>

text \<open>\<open>is_moving_towards_camera(object_id, min_frames)\<close>. The slice \<open>points[-min_frames:]\<close>
  is the whole list when \<open>min_frames\<close> is 0.\<close>

definition is_moving_towards_camera :: "tracker \<Rightarrow> int \<Rightarrow> nat \<Rightarrow> bool" where
  "is_moving_towards_camera s object_id min_frames =
     (case map_of (trajectory_points s) object_id of
        None \<Rightarrow> False
      | Some points \<Rightarrow>
          if length points < min_frames then False
          else
            let recent_points = (if min_frames = 0 then points
                                 else drop (length points - min_frames) points);
                y_movements = map (\<lambda>i. snd (recent_points ! (i + 1)) - snd (recent_points ! i))
                                [0..<length recent_points - 1]
            in if y_movements = [] then False
               else sum_list y_movements / real (length y_movements) > 0.5)"

text \<open>The attributes of \<open>ONNXTrafficDetector\<close> that the tracking and counting part of
  \<open>process_frame\<close> reads or writes. \<open>count_line_y\<close> is set at the top of \<open>process_frame\<close>
  before its first use.\<close>

record detector =
  det_tracker :: tracker
  vehicle_count :: int
  filtered_vehicle_count :: int
  lane_enabled :: bool
  direction_filter_enabled :: bool
  count_line_y :: int
  frame_count :: int

text \<open>The zone branch: \<open>for obj_id, obj in tracked_objects.items()\<close> with
  \<open>if obj_id in self.tracker.counted_ids: continue\<close> and
  \<open>if self.tracker.check_zone_counting(obj_id): self.vehicle_count += 1\<close>.\<close>

fun count_zone_loop :: "int list \<Rightarrow> detector \<Rightarrow> detector" where
  "count_zone_loop [] d = d"
| "count_zone_loop (obj_id # rest) d =
     (if obj_id \<in> counted_ids (det_tracker d) then count_zone_loop rest d
      else
        case check_zone_counting (det_tracker d) obj_id of
          (True, t') \<Rightarrow> count_zone_loop rest (d\<lparr>det_tracker := t', vehicle_count := vehicle_count d + 1\<rparr>)
        | (False, t') \<Rightarrow> count_zone_loop rest (d\<lparr>det_tracker := t'\<rparr>))"

text \<open>The line branch, with the optional direction filter
  (\<open>is_moving_towards_camera(obj_id)\<close>, default \<open>min_frames = 5\<close>).\<close>

fun count_line_loop :: "int list \<Rightarrow> detector \<Rightarrow> detector" where
  "count_line_loop [] d = d"
| "count_line_loop (obj_id # rest) d =
     (if obj_id \<in> crossed_ids (det_tracker d) then count_line_loop rest d
      else if direction_filter_enabled d \<and> \<not> is_moving_towards_camera (det_tracker d) obj_id 5
      then count_line_loop rest (d\<lparr>filtered_vehicle_count := filtered_vehicle_count d + 1\<rparr>)
      else
        case check_line_crossing (det_tracker d) obj_id (count_line_y d) of
          (True, t') \<Rightarrow> count_line_loop rest (d\<lparr>det_tracker := t', vehicle_count := vehicle_count d + 1\<rparr>)
        | (False, t') \<Rightarrow> count_line_loop rest (d\<lparr>det_tracker := t'\<rparr>))"

text \<open>\<open>process_frame\<close> from \<open>tracked_objects = self.tracker.update(all_detections)\<close> on: the
  tracker update, one of the two counting loops, and the frame counter. The detections come
  from the inference and filtering stages, which are inputs here; drawing is left out.\<close>

definition process_frame_tracking :: "detector \<Rightarrow> detection list \<Rightarrow> error + detector" where
  "process_frame_tracking d all_detections =
     (case update (det_tracker d) all_detections of
        Inl e \<Rightarrow> Inl e
      | Inr t' \<Rightarrow>
          let d1 = d\<lparr>det_tracker := t'\<rparr>;
              tracked_ids = map fst (objects t');
              d2 = (if lane_enabled d1 then count_zone_loop tracked_ids d1
                    else count_line_loop tracked_ids d1)
          in Inr (d2\<lparr>frame_count := frame_count d2 + 1\<rparr>))"

text \<open>A sequence of frames, one call of \<open>process_frame\<close> each.\<close>

fun process_frames :: "detector \<Rightarrow> detection list list \<Rightarrow> error + detector" where
  "process_frames d [] = Inr d"
| "process_frames d (f # fs) =
     (case process_frame_tracking d f of Inl e \<Rightarrow> Inl e | Inr d' \<Rightarrow> process_frames d' fs)"

text \<open>The set that the active strategy counts ids into: \<open>counted_ids\<close> with lane
  filtering, \<open>crossed_ids\<close> without.\<close>

definition counted_set :: "detector \<Rightarrow> int set" where
  "counted_set d = (if lane_enabled d then counted_ids (det_tracker d) else crossed_ids (det_tracker d))"

text \<open>The attributes that \<open>update\<close> never writes.\<close>

definition same_settings :: "tracker \<Rightarrow> tracker \<Rightarrow> bool" where
  "same_settings s s' \<longleftrightarrow>
     counted_ids s' = counted_ids s \<and> crossed_ids s' = crossed_ids s \<and>
     zone_entry_positions s' = zone_entry_positions s \<and>
     min_movement_to_count s' = min_movement_to_count s \<and>
     max_disappeared s' = max_disappeared s \<and> max_distance s' = max_distance s \<and>
     smoothing_factor s' = smoothing_factor s \<and>
     max_trajectory_length s' = max_trajectory_length s"

text \<open>Example states used to instantiate the theorems below: a tracker holding track 0 with a
  five-point trajectory whose last point has the given y.\<close>

definition example_object :: tracked_object where
  "example_object = \<lparr> obj_bbox = (90, 340, 110, 360), obj_class = ''vehicle'',
                       obj_confidence = 0.9, obj_history = [(90, 290, 110, 310)] \<rparr>"

definition example_tracker :: "real \<Rightarrow> tracker" where
  "example_tracker y =
     (init_tracker 30 100)
       \<lparr> next_id := 1, objects := [(0, example_object)], disappeared := [(0, 0)],
         trajectory_points := [(0, [(100, 300), (100, 310), (100, 320), (100, 330), (100, y)])],
         zone_entry_positions := [(0, 300)] \<rparr>"

definition example_detector :: "tracker \<Rightarrow> bool \<Rightarrow> detector" where
  "example_detector t lane =
     \<lparr> det_tracker = t, vehicle_count = 1, filtered_vehicle_count = 0, lane_enabled = lane,
       direction_filter_enabled = False, count_line_y = 345, frame_count = 10 \<rparr>"

text \<open>The same tracker after track 0 has been counted by both strategies.\<close>

definition example_counted_tracker :: tracker where
  "example_counted_tracker = (example_tracker 360)\<lparr>counted_ids := {0}, crossed_ids := {0}\<rparr>"

text \<open>A track in its fourth frame that has already moved 100 pixels forward.\<close>

definition example_young_tracker :: tracker where
  "example_young_tracker =
     (init_tracker 30 100)
       \<lparr> next_id := 1, objects := [(0, example_object)], disappeared := [(0, 0)],
         trajectory_points := [(0, [(100, 50), (100, 80), (100, 120), (100, 150)])] \<rparr>"

section \<open>Decoder and suppressor (core/detectors/onnx\_detector.py, class ONNXYOLODetector)\<close>

text \<open>The result of a numpy float division: dividing by zero gives \<open>nan\<close> or an infinity
  (with a warning), not an exception.\<close>

datatype npfloat = Finite real | PosInf | NegInf | NaN

definition np_divide :: "real \<Rightarrow> real \<Rightarrow> npfloat" where
  "np_divide a b =
     (if b \<noteq> 0 then Finite (a / b)
      else if a = 0 then NaN else if 0 < a then PosInf else NegInf)"

text \<open>The comparisons \<open>v <= t\<close> and \<open>v > t\<close> on such a value; every comparison with
  \<open>nan\<close> is false.\<close>

fun np_le :: "npfloat \<Rightarrow> real \<Rightarrow> bool" where
  "np_le (Finite v) t = (v \<le> t)"
| "np_le PosInf t = False"
| "np_le NegInf t = True"
| "np_le NaN t = False"

fun np_gt :: "npfloat \<Rightarrow> real \<Rightarrow> bool" where
  "np_gt (Finite v) t = (v > t)"
| "np_gt PosInf t = True"
| "np_gt NegInf t = False"
| "np_gt NaN t = False"

text \<open>One entry of the matrix that \<open>bbox_iou\<close> computes.\<close>

definition iou_pair :: "bbox \<Rightarrow> bbox \<Rightarrow> npfloat" where
  "iou_pair box1 box2 =
     (case box1 of (a1, b1, a2, b2) \<Rightarrow>
      case box2 of (c1, d1, c2, d2) \<Rightarrow>
        let x1 = max a1 c1; y1 = max b1 d1;
            x2 = min a2 c2; y2 = min b2 d2;
            intersection = max 0 (x2 - x1) * max 0 (y2 - y1);
            area1 = (a2 - a1) * (b2 - b1);
            area2 = (c2 - c1) * (d2 - d1);
            union = area1 + area2 - intersection
        in np_divide intersection (union + 1 / 1000000))"

text \<open>\<open>bbox_iou(box1, box2)\<close>: the \<open>[N, M]\<close> matrix of IoU values.\<close>

definition bbox_iou :: "bbox list \<Rightarrow> bbox list \<Rightarrow> npfloat list list" where
  "bbox_iou box1 box2 = map (\<lambda>b1. map (iou_pair b1) box2) box1"

text \<open>\<open>np.argsort(scores)\<close>, as a stable sort of the indices by score. (numpy's default sort
  is not stable, so the order of equal scores is its choice; with distinct scores the result
  is determined.)\<close>

definition argsort :: "real list \<Rightarrow> nat list" where
  "argsort scores = map snd (sort_key fst (zip scores [0..<length scores]))"

text \<open>Boolean-mask indexing \<open>xs[mask]\<close>.\<close>

definition apply_mask :: "'a list \<Rightarrow> bool list \<Rightarrow> 'a list" where
  "apply_mask xs bits = map fst (filter snd (zip xs bits))"

text \<open>The \<open>while\<close> loop of \<open>non_max_suppression\<close>. The arrays \<open>order\<close> and \<open>boxes\<close> have the
  same length and are indexed by the same mask, so the loop state is the list of their
  pairs; the result is the list \<open>keep\<close>.\<close>

function nms_loop :: "real \<Rightarrow> (nat \<times> bbox) list \<Rightarrow> nat list" where
  "nms_loop iou_threshold [] = []"
| "nms_loop iou_threshold ((i, b) # rest) =
     (if rest = [] then [i]
      else
        let ious = hd (bbox_iou [b] (map snd rest));
            keep_mask = map (\<lambda>v. np_le v iou_threshold) ious
        in i # nms_loop iou_threshold (apply_mask rest keep_mask))"
  by pat_completeness auto
termination
proof (relation "measure (\<lambda>(t, xs). length xs)")
  show "wf (measure (\<lambda>(t, xs). length xs))" by simp
next
  fix iou_threshold :: real and i :: nat and b :: bbox and rest :: "(nat \<times> bbox) list"
    and x xa
  have "length (apply_mask rest xa) \<le> length (zip rest xa)"
    unfolding apply_mask_def length_map by (rule length_filter_le)
  also have "\<dots> \<le> length rest" by simp
  finally show "((iou_threshold, apply_mask rest xa), iou_threshold, (i, b) # rest)
                  \<in> measure (\<lambda>(t, xs). length xs)"
    by simp
qed

text \<open>\<open>non_max_suppression(boxes, scores, iou_threshold)\<close>. \<open>boxes[order]\<close> raises IndexError
  when an index is out of range for \<open>boxes\<close>.\<close>

definition non_max_suppression :: "bbox list \<Rightarrow> real list \<Rightarrow> real \<Rightarrow> error + nat list" where
  "non_max_suppression boxes scores iou_threshold =
     (if length boxes = 0 then Inr []
      else
        let order = rev (argsort scores) in
        if \<exists>i \<in> set order. length boxes \<le> i then Inl IndexError
        else Inr (nms_loop iou_threshold (zip order (map (\<lambda>i. boxes ! i) order))))"

text \<open>The raw output \<open>outputs[0]\<close>: an array of up to three dimensions as nested lists
  (rectangular for a numpy array).\<close>

datatype ndarray = Arr0 real | Arr1 "real list" | Arr2 "real list list" | Arr3 "real list list list"

text \<open>The output dict of \<open>postprocess\<close>: the detection keys and \<open>class_id\<close>.\<close>

record yolo_detection = detection +
  class_id :: nat

text \<open>The attributes \<open>conf_thres\<close> and \<open>iou_thres\<close> of the detector.\<close>

record yolo_detector =
  conf_thres :: real
  iou_thres :: real

text \<open>\<open>str(n)\<close> for a non-negative int.\<close>

fun str_nat :: "nat \<Rightarrow> string" where
  "str_nat n = (if n < 10 then [''0123456789'' ! n]
                else str_nat (n div 10) @ [''0123456789'' ! (n mod 10)])"

text \<open>\<open>np.max\<close> and \<open>np.argmax\<close> of a non-empty row (the first index of the maximum).\<close>

definition np_max :: "real list \<Rightarrow> real" where
  "np_max xs = fold max (tl xs) (hd xs)"

definition np_argmax :: "real list \<Rightarrow> nat" where
  "np_argmax xs = length (takeWhile (\<lambda>x. x \<noteq> np_max xs) xs)"

text \<open>The first steps inside \<open>try\<close>: a three-dimensional array is transposed and squeezed
  (\<open>squeeze(0)\<close> raises ValueError unless the first dimension is 1), then
  \<open>predictions[:, :4]\<close> raises IndexError for fewer than two dimensions. The result is the
  list of anchor rows.\<close>

fun anchor_rows :: "ndarray \<Rightarrow> error + real list list" where
  "anchor_rows (Arr3 blocks) = (case blocks of [m] \<Rightarrow> Inr (transpose m) | _ \<Rightarrow> Inl ValueError)"
| "anchor_rows (Arr2 rows) = Inr rows"
| "anchor_rows (Arr1 xs) = Inl IndexError"
| "anchor_rows (Arr0 x) = Inl IndexError"

text \<open>\<open>np.clip(x, lo, hi)\<close>.\<close>

definition np_clip :: "real \<Rightarrow> real \<Rightarrow> real \<Rightarrow> real" where
  "np_clip x lo hi = min (max x lo) hi"

text \<open>Model space to image space: remove the padding, divide by the ratio, clip.
  (\<open>preprocess\<close> computes the ratio as a quotient of positive sizes; it is not zero.)\<close>

definition remap_box :: "real \<Rightarrow> int \<times> int \<Rightarrow> int \<times> int \<Rightarrow> bbox \<Rightarrow> bbox" where
  "remap_box ratio pad img_shape b =
     (case b of (x1, y1, x2, y2) \<Rightarrow>
      case pad of (dx, dy) \<Rightarrow>
      case img_shape of (img_height, img_width) \<Rightarrow>
        (np_clip ((x1 - real_of_int dx) / ratio) 0 (real_of_int img_width),
         np_clip ((y1 - real_of_int dy) / ratio) 0 (real_of_int img_height),
         np_clip ((x2 - real_of_int dx) / ratio) 0 (real_of_int img_width),
         np_clip ((y2 - real_of_int dy) / ratio) 0 (real_of_int img_height)))"

text \<open>The final loop of \<open>postprocess\<close>: boxes with no area after clipping are skipped.\<close>

fun to_detections :: "(bbox \<times> real \<times> nat) list \<Rightarrow> yolo_detection list" where
  "to_detections [] = []"
| "to_detections (((x1, y1, x2, y2), score, cid) # rest) =
     (if x2 \<le> x1 \<or> y2 \<le> y1 then to_detections rest
      else \<lparr> bbox = (x1, y1, x2, y2), confidence = score, class_name = Some (str_nat cid),
             class_id = cid \<rparr> # to_detections rest)"

text \<open>The body of the \<open>try\<close> block of \<open>postprocess\<close>. \<open>outputs[0]\<close> raises IndexError on an
  empty list; \<open>np.max(class_scores, axis=1)\<close> raises ValueError when the rows have no class
  columns. A row that passed has at least five columns, so its first four entries exist.\<close>

definition postprocess_try ::
  "yolo_detector \<Rightarrow> ndarray list \<Rightarrow> real \<Rightarrow> int \<times> int \<Rightarrow> int \<times> int \<Rightarrow> real
     \<Rightarrow> error + yolo_detection list" where
  "postprocess_try self outputs ratio pad img_shape conf =
     (case outputs of
        [] \<Rightarrow> Inl IndexError
      | predictions # _ \<Rightarrow>
          (case anchor_rows predictions of
             Inl e \<Rightarrow> Inl e
           | Inr rows \<Rightarrow>
               if \<exists>row \<in> set rows. length row \<le> 4 then Inl ValueError
               else
                 let scored = map (\<lambda>row. (take 4 row, np_max (drop 4 row), np_argmax (drop 4 row))) rows;
                     valid = filter (\<lambda>(box, score, cid). score \<ge> conf) scored
                 in if valid = [] then Inr []
                    else
                      let boxes = map (\<lambda>(box, score, cid).
                                    (box ! 0 - box ! 2 / 2, box ! 1 - box ! 3 / 2,
                                     box ! 0 + box ! 2 / 2, box ! 1 + box ! 3 / 2)) valid;
                          valid_scores = map (\<lambda>(box, score, cid). score) valid;
                          valid_class_ids = map (\<lambda>(box, score, cid). cid) valid
                      in (case non_max_suppression boxes valid_scores (iou_thres self) of
                            Inl e \<Rightarrow> Inl e
                          | Inr keep_indices \<Rightarrow>
                              if length keep_indices = 0 then Inr []
                              else Inr (to_detections
                                     (map (\<lambda>k. (remap_box ratio pad img_shape (boxes ! k),
                                                 valid_scores ! k, valid_class_ids ! k))
                                        keep_indices)))))"

text \<open>\<open>postprocess(outputs, ratio, pad, img_shape, conf_thres=None)\<close>: the \<open>try\<close> block under
  \<open>except Exception\<close>, whose handler prints the error and returns the empty list.\<close>

definition postprocess ::
  "yolo_detector \<Rightarrow> ndarray list \<Rightarrow> real \<Rightarrow> int \<times> int \<Rightarrow> int \<times> int \<Rightarrow> real option
     \<Rightarrow> error + yolo_detection list" where
  "postprocess self outputs ratio pad img_shape conf_arg =
     (let conf = (case conf_arg of None \<Rightarrow> conf_thres self | Some c \<Rightarrow> c)
      in case postprocess_try self outputs ratio pad img_shape conf of
           Inl e \<Rightarrow> Inr []
         | Inr detections \<Rightarrow> Inr detections)"

text \<open>The shapes on which the indexing in \<open>postprocess\<close> raises: fewer than two dimensions,
  three dimensions with a first dimension other than 1, or anchor rows without class
  columns.\<close>

fun malformed_shape :: "ndarray \<Rightarrow> bool" where
  "malformed_shape (Arr0 x) = True"
| "malformed_shape (Arr1 xs) = True"
| "malformed_shape (Arr2 rows) = (\<exists>row \<in> set rows. length row \<le> 4)"
| "malformed_shape (Arr3 blocks) =
     (case blocks of [m] \<Rightarrow> (\<exists>row \<in> set (transpose m). length row \<le> 4) | _ \<Rightarrow> True)"

section \<open>Stability gate (ONNXTrafficDetector.\_is\_enhanced\_stable\_detection)\<close>

text \<open>The attributes of \<open>ONNXTrafficDetector\<close> that the stability check reads: three deques
  (\<open>maxlen\<close> 20, 20 and 15) and three parameters.\<close>

record stability_gate =
  ambulance_detection_history :: "bool list"
  ambulance_confidence_history :: "real list"
  ambulance_position_history :: "point list"
  min_tracklet_frames :: nat
  stability_ratio :: real
  min_confidence_for_stability :: real

text \<open>The values that \<open>ONNXTrafficDetector.__init__\<close> assigns.\<close>

definition init_gate :: stability_gate where
  "init_gate = \<lparr> ambulance_detection_history = [], ambulance_confidence_history = [],
                 ambulance_position_history = [], min_tracklet_frames = 3,
                 stability_ratio = 0.6, min_confidence_for_stability = 0.04 \<rparr>"

text \<open>\<open>self.ambulance_detection_history.append(frame_has_detection)\<close>, the first step of
  \<open>_apply_enhanced_temporal_analysis\<close>.\<close>

definition append_detection_history :: "stability_gate \<Rightarrow> bool \<Rightarrow> stability_gate" where
  "append_detection_history g frame_has_detection =
     g\<lparr>ambulance_detection_history :=
         deque_append 20 (ambulance_detection_history g) frame_has_detection\<rparr>"

text \<open>The slice \<open>xs[-n:]\<close> for \<open>n \<ge> 0\<close>: the last \<open>n\<close> elements, and the whole list for
  \<open>n = 0\<close>.\<close>

definition py_tail :: "nat \<Rightarrow> 'a list \<Rightarrow> 'a list" where
  "py_tail n xs = (if n = 0 then xs else drop (length xs - n) xs)"

text \<open>\<open>np.mean\<close>, \<open>np.var\<close> and \<open>np.std\<close> (population variance) of a non-empty list.\<close>

definition np_mean :: "real list \<Rightarrow> real" where
  "np_mean xs = sum_list xs / real (length xs)"

definition np_var :: "real list \<Rightarrow> real" where
  "np_var xs = np_mean (map (\<lambda>x. (x - np_mean xs)\<^sup>2) xs)"

definition np_std :: "real list \<Rightarrow> real" where
  "np_std xs = sqrt (np_var xs)"

text \<open>\<open>_calculate_position_variance\<close>.\<close>

definition calculate_position_variance :: "point list \<Rightarrow> real" where
  "calculate_position_variance positions =
     (if length positions < 2 then 0
      else np_var (map fst positions) + np_var (map snd positions))"

text \<open>Criteria 2, 3 and 4 of \<open>_is_enhanced_stable_detection\<close>; each is \<open>False\<close> where the
  source returns \<open>False\<close>.\<close>

definition confidence_criterion :: "stability_gate \<Rightarrow> bool" where
  "confidence_criterion g =
     (if length (ambulance_confidence_history g) \<ge> min_tracklet_frames g then
        let recent_confidences =
              filter (\<lambda>c. c > 0) (py_tail (min_tracklet_frames g) (ambulance_confidence_history g))
        in if recent_confidences \<noteq> [] then
             (if np_mean recent_confidences < min_confidence_for_stability g then False
              else if np_std recent_confidences > 0.25 then False
              else True)
           else True
      else True)"

definition position_criterion :: "stability_gate \<Rightarrow> bool" where
  "position_criterion g =
     (if length (ambulance_position_history g) \<ge> 5 then
        (if calculate_position_variance (py_tail 5 (ambulance_position_history g)) > 50000
         then False else True)
      else True)"

definition current_quality_criterion :: "detection list \<Rightarrow> bool" where
  "current_quality_criterion current_detections =
     (if current_detections \<noteq> [] then
        (if Max (set (map confidence current_detections)) < 0.1 then False else True)
      else True)"

text \<open>\<open>_is_enhanced_stable_detection(current_detections)\<close>. \<open>sum\<close> of a list of booleans counts
  the \<open>True\<close> entries; the division raises ZeroDivisionError on an empty slice (possible only
  with \<open>min_tracklet_frames = 0\<close> and an empty history).\<close>

definition is_enhanced_stable_detection :: "stability_gate \<Rightarrow> detection list \<Rightarrow> error + bool" where
  "is_enhanced_stable_detection g current_detections =
     (if length (ambulance_detection_history g) < min_tracklet_frames g then Inr False
      else
        let recent_detections = py_tail (min_tracklet_frames g) (ambulance_detection_history g) in
        if length recent_detections = 0 then Inl ZeroDivisionError
        else
          let detection_rate = real (length (filter (\<lambda>b. b) recent_detections))
                                 / real (length recent_detections)
          in if detection_rate < stability_ratio g then Inr False
             else if \<not> confidence_criterion g then Inr False
             else if \<not> position_criterion g then Inr False
             else if \<not> current_quality_criterion current_detections then Inr False
             else Inr True)"

section \<open>Runs of the tracker, reachable states and the reference matching order\<close>

text \<open>\<open>object_ids = list(self.objects.keys())\<close>: the ids in the order in which \<open>update\<close>
  iterates them.\<close>

definition object_ids :: "tracker \<Rightarrow> int list" where
  "object_ids s = map fst (objects s)"

text \<open>A sequence of \<open>update\<close> calls, one detection list per frame; and the same with the ids
  that were registered along the way, in the order of their assignment.\<close>

fun update_frames :: "tracker \<Rightarrow> detection list list \<Rightarrow> error + tracker" where
  "update_frames s [] = Inr s"
| "update_frames s (f # fs) =
     (case update s f of Inl e \<Rightarrow> Inl e | Inr s' \<Rightarrow> update_frames s' fs)"

fun update_frames_reg :: "tracker \<Rightarrow> detection list list \<Rightarrow> error + (tracker \<times> int list)" where
  "update_frames_reg s [] = Inr (s, [])"
| "update_frames_reg s (f # fs) =
     (case update_reg s f of
        Inl e \<Rightarrow> Inl e
      | Inr (s1, ids1) \<Rightarrow>
          (case update_frames_reg s1 fs of
             Inl e \<Rightarrow> Inl e
           | Inr (s2, ids2) \<Rightarrow> Inr (s2, ids1 @ ids2)))"

text \<open>The tracker states that the methods of \<open>ONNXVehicleTracker\<close> can produce from a freshly
  constructed tracker. The other methods (\<open>is_moving_towards_camera\<close>, \<open>is_in_lane\<close>,
  \<open>draw_trajectories\<close>) do not change the state.\<close>

inductive reachable :: "tracker \<Rightarrow> bool" where
  reach_init: "reachable (init_tracker max_disappeared_arg max_distance_arg)"
| reach_update: "reachable s \<Longrightarrow> update s detections = Inr s' \<Longrightarrow> reachable s'"
| reach_zone: "reachable s \<Longrightarrow> check_zone_counting s object_id = (r, s') \<Longrightarrow> reachable s'"
| reach_line: "reachable s \<Longrightarrow> check_line_crossing s object_id l = (r, s') \<Longrightarrow> reachable s'"

text \<open>The invariant of the three dicts of the track table: the keys of \<open>objects\<close> are in
  strictly ascending order and below \<open>next_id\<close>, and \<open>disappeared\<close> and \<open>trajectory_points\<close>
  have the same keys in the same order.\<close>

definition tracker_inv :: "tracker \<Rightarrow> bool" where
  "tracker_inv s \<longleftrightarrow>
     sorted_wrt (<) (map fst (objects s)) \<and>
     (\<forall>k \<in> set (map fst (objects s)). k < next_id s) \<and>
     map fst (disappeared s) = map fst (objects s) \<and>
     map fst (trajectory_points s) = map fst (objects s)"

text \<open>Reference for the matching order, following the words of the specification (section
  4.4, step 3): the greedy nearest-neighbour matching with the tracks taken in ascending
  numeric id order; and \<open>update\<close> with that matching step.\<close>

definition match_phase_ascending ::
  "detection list \<Rightarrow> tracker \<Rightarrow> error + (tracker \<times> nat set \<times> int set)" where
  "match_phase_ascending detections s = match_phase (sort_key fst (object_entries s)) detections s"

definition update_ascending :: "tracker \<Rightarrow> detection list \<Rightarrow> error + tracker" where
  "update_ascending s detections =
     (if detections = [] then for_each mark_disappeared (map fst (disappeared s)) s
      else if objects s = [] then
        Inr (fst (register_unmatched {} (List.enumerate 0 detections) (s, [])))
      else
        (case match_phase_ascending detections s of
           Inl e \<Rightarrow> Inl e
         | Inr st \<Rightarrow>
             (case finish_update detections st of
                Inl e \<Rightarrow> Inl e
              | Inr (s', ids) \<Rightarrow> Inr s')))"

text \<open>The invariant behind zone counting: the two constants that \<open>__init__\<close> sets and no method
  reassigns, and every id with a recorded entry position is below \<open>next_id\<close> and, while it
  has a trajectory, the trajectory has at least five points.\<close>

definition zone_inv :: "tracker \<Rightarrow> bool" where
  "zone_inv s \<longleftrightarrow>
     max_trajectory_length s = 20 \<and> min_movement_to_count s = 50 \<and>
     (\<forall>oid e. map_of (zone_entry_positions s) oid = Some e \<longrightarrow>
        oid < next_id s \<and>
        (\<forall>pts. map_of (trajectory_points s) oid = Some pts \<longrightarrow> 5 \<le> length pts))"

text \<open>A detection with the given box, and a tracker holding the single track 0 with box
  \<open>(0, 0, 10, 10)\<close>.\<close>

definition example_detection :: "bbox \<Rightarrow> detection" where
  "example_detection b = \<lparr> bbox = b, confidence = 0.9, class_name = None \<rparr>"

definition example_single_tracker :: tracker where
  "example_single_tracker =
     (init_tracker 30 100)
       \<lparr> next_id := 1,
         objects := [(0, \<lparr> obj_bbox = (0, 0, 10, 10), obj_class = ''vehicle'',
                           obj_confidence = 0.9, obj_history = [(0, 0, 10, 10)] \<rparr>)],
         disappeared := [(0, 0)],
         trajectory_points := [(0, [(5, 5)])] \<rparr>"

text \<open>A detector with the default thresholds of \<open>ONNXYOLODetector.__init__\<close>.\<close>

definition example_yolo :: yolo_detector where
  "example_yolo = \<lparr> conf_thres = 0.25, iou_thres = 0.45 \<rparr>"

text \<open>The gate after five frames with the given detection flags, oldest first.\<close>

definition example_gate :: "bool list \<Rightarrow> stability_gate" where
  "example_gate flags = fold (\<lambda>b g. append_detection_history g b) flags init_gate"

text \<open>Two detections far apart (their centres are 1000 pixels from each other), and the
  tracker after a first frame with both.\<close>

definition example_det_a :: detection where
  "example_det_a = example_detection (0, 0, 10, 10)"

definition example_det_far :: detection where
  "example_det_far = example_detection (1000, 0, 1010, 10)"

definition example_two_tracks :: tracker where
  "example_two_tracks = projr (update (init_tracker 30 100) [example_det_a, example_det_far])"

text \<open>The tracker with \<open>max_disappeared = 30\<close> after the frames \<open>[a]\<close> and \<open>[a, far]\<close>, followed
  by \<open>k\<close> frames without detections: track 0 was matched in the second frame, track 1 was
  registered in it.\<close>

definition example_late_tracks :: "int \<Rightarrow> tracker" where
  "example_late_tracks k =
     (init_tracker 30 100)
       \<lparr> next_id := 2,
         objects := [(0, \<lparr> obj_bbox = (0, 0, 10, 10), obj_class = ''vehicle'',
                           obj_confidence = 0.9, obj_history = [(0, 0, 10, 10)] \<rparr>),
                     (1, \<lparr> obj_bbox = (1000, 0, 1010, 10), obj_class = ''vehicle'',
                           obj_confidence = 0.9, obj_history = [(1000, 0, 1010, 10)] \<rparr>)],
         disappeared := [(0, k), (1, k + 1)],
         trajectory_points := [(0, [(5, 5), (5, 5)]), (1, [(1005, 5)])] \<rparr>"

text \<open>A run that reaches the boundary of zone counting: a vehicle whose centre is at
  \<open>(100, 300)\<close> is seen in five frames, \<open>check_zone_counting\<close> records its entry position, and
  a sixth frame moves the smoothed centre to y = 349 (candidate box from 366 to 386) or
  y = 350 (candidate box from 367 to 387).\<close>

definition example_entered_tracker :: tracker where
  "example_entered_tracker =
     snd (check_zone_counting
            (projr (update_frames (init_tracker 30 100)
                      [[example_detection (90, 290, 110, 310)],
                       [example_detection (90, 290, 110, 310)],
                       [example_detection (90, 290, 110, 310)],
                       [example_detection (90, 290, 110, 310)],
                       [example_detection (90, 290, 110, 310)]])) 0)"

definition example_moved_tracker :: "real \<Rightarrow> tracker" where
  "example_moved_tracker y1 =
     projr (update example_entered_tracker [example_detection (90, y1, 110, y1 + 20)])"

text \<open>A tracker holding the single track 0 with box \<open>(24, 24, 124, 124)\<close>.\<close>

definition example_tracker_24 :: tracker where
  "example_tracker_24 =
     (init_tracker 30 100)
       \<lparr> next_id := 1,
         objects := [(0, \<lparr> obj_bbox = (24, 24, 124, 124), obj_class = ''vehicle'',
                           obj_confidence = 0.9, obj_history = [(24, 24, 124, 124)] \<rparr>)],
         disappeared := [(0, 0)],
         trajectory_points := [(0, [(74, 74)])] \<rparr>"

section \<open>Properties\<close>

lemma same_settings_refl: "same_settings s s"
  by (simp add: same_settings_def)

lemma same_settings_trans: "same_settings s t \<Longrightarrow> same_settings t u \<Longrightarrow> same_settings s u"
  by (simp add: same_settings_def)

lemma for_each_preserves:
  assumes step: "\<And>x a a'. body x a = Inr a' \<Longrightarrow> P a \<Longrightarrow> P a'"
  shows "for_each body xs a = Inr a' \<Longrightarrow> P a \<Longrightarrow> P a'"
proof (induction xs arbitrary: a)
  case Nil
  then show ?case by simp
next
  case (Cons x xs)
  from Cons.prems(1) obtain b where b: "body x a = Inr b" and rest: "for_each body xs b = Inr a'"
    by (auto split: sum.splits)
  from step[OF b Cons.prems(2)] have "P b" .
  from Cons.IH[OF rest this] show ?case .
qed

lemma same_update_trajectory: "same_settings s (update_trajectory s oid b)"
  by (simp add: same_settings_def update_trajectory_def Let_def)

lemma same_register: "register s det = (oid, s') \<Longrightarrow> same_settings s s'"
  by (auto simp: same_settings_def register_def update_trajectory_def Let_def)

lemma same_deregister: "same_settings s (deregister s oid)"
  by (simp add: same_settings_def deregister_def)

lemma same_mark_disappeared: "mark_disappeared oid s = Inr s' \<Longrightarrow> same_settings s s'"
  by (auto simp: same_settings_def mark_disappeared_def deregister_def Let_def
           split: option.splits if_splits)

lemma same_match_track:
  "match_track dets cs entry (s, md, mo) = Inr (s', md', mo') \<Longrightarrow> same_settings s s'"
  by (auto simp: same_settings_def match_track_def update_trajectory_def Let_def
           split: option.splits if_splits prod.splits)

lemma same_register_unmatched:
  "register_unmatched m xs (s, ids) = (s', ids') \<Longrightarrow> same_settings s s'"
proof (induction xs arbitrary: s ids)
  case Nil
  then show ?case by (simp add: same_settings_refl)
next
  case (Cons x xs)
  obtain i det where x: "x = (i, det)" by (cases x)
  show ?case
  proof (cases "i \<in> m")
    case True
    with Cons.prems x have "register_unmatched m xs (s, ids) = (s', ids')" by simp
    from Cons.IH[OF this] show ?thesis .
  next
    case False
    obtain oid s1 where r: "register s det = (oid, s1)" by (cases "register s det")
    with Cons.prems x False have "register_unmatched m xs (s1, ids @ [oid]) = (s', ids')" by simp
    from Cons.IH[OF this] same_register[OF r] show ?thesis by (rule same_settings_trans[rotated])
  qed
qed

lemma same_match_phase:
  assumes "match_phase entries dets s = Inr (s', md, mo)"
  shows "same_settings s s'"
proof -
  have "same_settings s (fst (s', md, mo))"
  proof (rule for_each_preserves[where P="\<lambda>a. same_settings s (fst a)"
            and a="(s, {}, {})" and xs=entries
            and body="match_track dets (map (\<lambda>d. get_center (bbox d)) dets)"])
    fix x a a' assume b: "match_track dets (map (\<lambda>d. get_center (bbox d)) dets) x a = Inr a'"
      and p: "same_settings s (fst a)"
    obtain s1 md1 mo1 where a: "a = (s1, md1, mo1)" by (cases a)
    obtain s2 md2 mo2 where a': "a' = (s2, md2, mo2)" by (cases a')
    from same_match_track[OF b[unfolded a a']] p a a'
    show "same_settings s (fst a')" by (auto intro: same_settings_trans)
  next
    show "for_each (match_track dets (map (\<lambda>d. get_center (bbox d)) dets)) entries (s, {}, {})
            = Inr (s', md, mo)"
      using assms by (simp add: match_phase_def)
  next
    show "same_settings s (fst (s, {}, {}))" by (simp add: same_settings_refl)
  qed
  then show ?thesis by simp
qed

lemma same_mark_loop:
  assumes "for_each (\<lambda>obj_id s. if obj_id \<notin> mo then mark_disappeared obj_id s else Inr s) xs s = Inr s'"
  shows "same_settings s s'"
proof (rule for_each_preserves[where P="same_settings s", OF _ assms])
  fix x a a'
  assume "(if x \<notin> mo then mark_disappeared x a else Inr a) = Inr a'" and "same_settings s a"
  then show "same_settings s a'"
    by (auto split: if_splits intro: same_settings_trans same_mark_disappeared)
qed (rule same_settings_refl)

lemma same_mark_loop_all:
  assumes "for_each mark_disappeared xs s = Inr s'"
  shows "same_settings s s'"
proof (rule for_each_preserves[where P="same_settings s", OF _ assms])
  fix x a a'
  assume "mark_disappeared x a = Inr a'" and "same_settings s a"
  then show "same_settings s a'"
    by (auto intro: same_settings_trans same_mark_disappeared)
qed (rule same_settings_refl)

lemma same_finish_update:
  assumes "finish_update dets (s1, md, mo) = Inr (s', ids)"
  shows "same_settings s1 s'"
proof -
  obtain s2 ids2 where r: "register_unmatched md (List.enumerate 0 dets) (s1, []) = (s2, ids2)"
    by (cases "register_unmatched md (List.enumerate 0 dets) (s1, [])")
  with assms have
    "for_each (\<lambda>obj_id s. if obj_id \<notin> mo then mark_disappeared obj_id s else Inr s)
       (map fst (objects s2)) s2 = Inr s'"
    by (auto simp: finish_update_def split: sum.splits)
  from same_mark_loop[OF this] same_register_unmatched[OF r]
  show ?thesis by (rule same_settings_trans[rotated])
qed

lemma same_update_reg:
  assumes "update_reg s dets = Inr (s', ids)"
  shows "same_settings s s'"
proof (cases "length dets = 0")
  case True
  with assms have "for_each mark_disappeared (map fst (disappeared s)) s = Inr s'"
    by (auto simp: update_reg_def split: sum.splits)
  then show ?thesis by (rule same_mark_loop_all)
next
  case ne: False
  show ?thesis
  proof (cases "length (objects s) = 0")
    case True
    with assms ne have "register_unmatched {} (List.enumerate 0 dets) (s, []) = (s', ids)"
      by (auto simp: update_reg_def)
    then show ?thesis by (rule same_register_unmatched)
  next
    case False
    with assms ne obtain st where m: "match_phase (object_entries s) dets s = Inr st"
      and f: "finish_update dets st = Inr (s', ids)"
      by (auto simp: update_reg_def split: sum.splits)
    obtain s1 md mo where st: "st = (s1, md, mo)" by (cases st)
    from same_finish_update[OF f[unfolded st]] same_match_phase[OF m[unfolded st]]
    show ?thesis by (rule same_settings_trans[rotated])
  qed
qed

lemma same_update: "update s dets = Inr s' \<Longrightarrow> same_settings s s'"
  by (auto simp: update_def split: sum.splits dest: same_update_reg)

lemma czc_counted: "oid \<in> counted_ids s \<Longrightarrow> check_zone_counting s oid = (False, s)"
  by (simp add: check_zone_counting_def)

lemma clc_crossed: "oid \<in> crossed_ids s \<Longrightarrow> check_line_crossing s oid l = (False, s)"
  by (simp add: check_line_crossing_def)

lemma czc_cases:
  "check_zone_counting s oid = (r, s') \<Longrightarrow>
     crossed_ids s' = crossed_ids s \<and> objects s' = objects s \<and> disappeared s' = disappeared s \<and>
     trajectory_points s' = trajectory_points s \<and> next_id s' = next_id s \<and>
     (if r then oid \<notin> counted_ids s \<and> counted_ids s' = insert oid (counted_ids s)
      else counted_ids s' = counted_ids s)"
  by (auto simp: check_zone_counting_def Let_def split: if_splits option.splits)

lemma clc_cases:
  "check_line_crossing s oid l = (r, s') \<Longrightarrow>
     counted_ids s' = counted_ids s \<and> objects s' = objects s \<and> disappeared s' = disappeared s \<and>
     trajectory_points s' = trajectory_points s \<and> next_id s' = next_id s \<and>
     (if r then oid \<notin> crossed_ids s \<and> crossed_ids s' = insert oid (crossed_ids s)
      else crossed_ids s' = crossed_ids s)"
  by (auto simp: check_line_crossing_def Let_def split: if_splits option.splits)

lemma count_zone_loop_inv:
  "counted_ids (det_tracker d) \<subseteq> counted_ids (det_tracker (count_zone_loop ids d)) \<and>
     finite (counted_ids (det_tracker (count_zone_loop ids d)) - counted_ids (det_tracker d)) \<and>
     vehicle_count (count_zone_loop ids d) = vehicle_count d
        + int (card (counted_ids (det_tracker (count_zone_loop ids d)) - counted_ids (det_tracker d))) \<and>
     crossed_ids (det_tracker (count_zone_loop ids d)) = crossed_ids (det_tracker d) \<and>
     lane_enabled (count_zone_loop ids d) = lane_enabled d"
proof (induction ids arbitrary: d)
  case Nil
  show ?case by simp
next
  case (Cons oid rest)
  show ?case
  proof (cases "oid \<in> counted_ids (det_tracker d)")
    case True
    then have "count_zone_loop (oid # rest) d = count_zone_loop rest d" by simp
    with Cons.IH[of d] show ?thesis by simp
  next
    case notin: False
    obtain r t' where czc: "check_zone_counting (det_tracker d) oid = (r, t')"
      by (cases "check_zone_counting (det_tracker d) oid") auto
    note c = czc_cases[OF czc]
    show ?thesis
    proof (cases r)
      case True
      define d1 where "d1 = d\<lparr>det_tracker := t', vehicle_count := vehicle_count d + 1\<rparr>"
      have run: "count_zone_loop (oid # rest) d = count_zone_loop rest d1"
        using notin czc True by (simp add: d1_def)
      define A where "A = counted_ids (det_tracker d)"
      define B where "B = counted_ids (det_tracker (count_zone_loop rest d1))"
      have ins: "counted_ids (det_tracker d1) = insert oid A"
        using c True by (simp add: d1_def A_def)
      have vc1: "vehicle_count d1 = vehicle_count d + 1" by (simp add: d1_def)
      have cr1: "crossed_ids (det_tracker d1) = crossed_ids (det_tracker d)"
        using c by (simp add: d1_def)
      have le1: "lane_enabled d1 = lane_enabled d" by (simp add: d1_def)
      note ih = Cons.IH[of d1]
      have sub: "insert oid A \<subseteq> B" using ih ins by (simp add: B_def)
      have fin: "finite (B - insert oid A)" using ih ins by (simp add: B_def)
      have vc: "vehicle_count (count_zone_loop rest d1) = vehicle_count d1 + int (card (B - insert oid A))"
        using ih ins by (simp add: B_def)
      have notinA: "oid \<notin> A" using notin by (simp add: A_def)
      have eq: "B - A = insert oid (B - insert oid A)" using sub notinA by auto
      have ci: "card (insert oid (B - insert oid A)) = Suc (card (B - insert oid A))"
        by (rule card_insert_disjoint[OF fin]) simp
      have cd: "card (B - A) = Suc (card (B - insert oid A))"
        by (rule trans[OF arg_cong[where f=card, OF eq] ci])
      have fin2: "finite (B - A)" using fin by simp
      have s1: "A \<subseteq> B" using sub by simp
      have s3: "vehicle_count (count_zone_loop rest d1) = vehicle_count d + int (card (B - A))"
        using vc vc1 cd by simp
      have s4: "crossed_ids (det_tracker (count_zone_loop rest d1)) = crossed_ids (det_tracker d)"
        using ih cr1 by simp
      have s5: "lane_enabled (count_zone_loop rest d1) = lane_enabled d"
        using ih le1 by simp
      show ?thesis
        unfolding run using s1 fin2 s3 s4 s5 unfolding A_def B_def by blast
    next
      case False
      define d1 where "d1 = d\<lparr>det_tracker := t'\<rparr>"
      have run: "count_zone_loop (oid # rest) d = count_zone_loop rest d1"
        using notin czc False by (simp add: d1_def)
      have e1: "counted_ids (det_tracker d1) = counted_ids (det_tracker d)"
        using c False by (simp add: d1_def)
      have e2: "crossed_ids (det_tracker d1) = crossed_ids (det_tracker d)"
        using c by (simp add: d1_def)
      have e3: "vehicle_count d1 = vehicle_count d" "lane_enabled d1 = lane_enabled d"
        by (simp_all add: d1_def)
      show ?thesis unfolding run using Cons.IH[of d1] unfolding e1 e2 e3 by blast
    qed
  qed
qed

lemma card_step:
  assumes "oid \<notin> A" "insert oid A \<subseteq> B" "finite (B - insert oid A)"
  shows "A \<subseteq> B \<and> finite (B - A) \<and> card (B - A) = Suc (card (B - insert oid A))"
proof -
  have eq: "B - A = insert oid (B - insert oid A)" using assms(1,2) by auto
  have ci: "card (insert oid (B - insert oid A)) = Suc (card (B - insert oid A))"
    by (rule card_insert_disjoint[OF assms(3)]) simp
  have "card (B - A) = Suc (card (B - insert oid A))"
    by (rule trans[OF arg_cong[where f=card, OF eq] ci])
  moreover have "finite (B - A)" using assms(3) by simp
  moreover have "A \<subseteq> B" using assms(2) by simp
  ultimately show ?thesis by blast
qed

lemma card_chain:
  assumes "A \<subseteq> B" "B \<subseteq> C" "finite (B - A)" "finite (C - B)"
  shows "A \<subseteq> C \<and> finite (C - A) \<and> card (C - A) = card (B - A) + card (C - B)"
proof -
  have eq: "C - A = (B - A) \<union> (C - B)" using assms(1,2) by auto
  have dj: "(B - A) \<inter> (C - B) = {}" by auto
  have "card ((B - A) \<union> (C - B)) = card (B - A) + card (C - B)"
    by (rule card_Un_disjoint[OF assms(3,4) dj])
  then have "card (C - A) = card (B - A) + card (C - B)"
    by (rule trans[OF arg_cong[where f=card, OF eq]])
  moreover have "finite ((B - A) \<union> (C - B))" using assms(3,4) by simp
  then have "finite (C - A)" by (rule subst[OF eq[symmetric]])
  moreover have "A \<subseteq> C" using assms(1,2) by blast
  ultimately show ?thesis by blast
qed

lemma count_line_loop_inv:
  "crossed_ids (det_tracker d) \<subseteq> crossed_ids (det_tracker (count_line_loop ids d)) \<and>
     finite (crossed_ids (det_tracker (count_line_loop ids d)) - crossed_ids (det_tracker d)) \<and>
     vehicle_count (count_line_loop ids d) = vehicle_count d
        + int (card (crossed_ids (det_tracker (count_line_loop ids d)) - crossed_ids (det_tracker d))) \<and>
     counted_ids (det_tracker (count_line_loop ids d)) = counted_ids (det_tracker d) \<and>
     lane_enabled (count_line_loop ids d) = lane_enabled d"
proof (induction ids arbitrary: d)
  case Nil
  show ?case by simp
next
  case (Cons oid rest)
  show ?case
  proof (cases "oid \<in> crossed_ids (det_tracker d)")
    case True
    then have "count_line_loop (oid # rest) d = count_line_loop rest d" by simp
    with Cons.IH[of d] show ?thesis by simp
  next
    case notin: False
    show ?thesis
    proof (cases "direction_filter_enabled d \<and> \<not> is_moving_towards_camera (det_tracker d) oid 5")
      case True
      define d1 where "d1 = d\<lparr>filtered_vehicle_count := filtered_vehicle_count d + 1\<rparr>"
      have run: "count_line_loop (oid # rest) d = count_line_loop rest d1"
        using notin True by (simp add: d1_def)
      have e: "det_tracker d1 = det_tracker d" "vehicle_count d1 = vehicle_count d"
        "lane_enabled d1 = lane_enabled d" by (simp_all add: d1_def)
      show ?thesis unfolding run using Cons.IH[of d1] unfolding e by blast
    next
      case nofilter: False
      obtain r t' where clc: "check_line_crossing (det_tracker d) oid (count_line_y d) = (r, t')"
        by (cases "check_line_crossing (det_tracker d) oid (count_line_y d)") auto
      note c = clc_cases[OF clc]
      show ?thesis
      proof (cases r)
        case True
        define d1 where "d1 = d\<lparr>det_tracker := t', vehicle_count := vehicle_count d + 1\<rparr>"
        have run: "count_line_loop (oid # rest) d = count_line_loop rest d1"
          using notin nofilter clc True by (auto simp add: d1_def)
        define A where "A = crossed_ids (det_tracker d)"
        define B where "B = crossed_ids (det_tracker (count_line_loop rest d1))"
        have ins: "crossed_ids (det_tracker d1) = insert oid A"
          using c True by (simp add: d1_def A_def)
        have vc1: "vehicle_count d1 = vehicle_count d + 1" by (simp add: d1_def)
        have cr1: "counted_ids (det_tracker d1) = counted_ids (det_tracker d)"
          using c by (simp add: d1_def)
        have le1: "lane_enabled d1 = lane_enabled d" by (simp add: d1_def)
        note ih = Cons.IH[of d1]
        have sub: "insert oid A \<subseteq> B" using ih ins by (simp add: B_def)
        have fin: "finite (B - insert oid A)" using ih ins by (simp add: B_def)
        have vc: "vehicle_count (count_line_loop rest d1) = vehicle_count d1 + int (card (B - insert oid A))"
          using ih ins by (simp add: B_def)
        have notinA: "oid \<notin> A" using notin by (simp add: A_def)
        note cs = card_step[OF notinA sub fin]
        have s3: "vehicle_count (count_line_loop rest d1) = vehicle_count d + int (card (B - A))"
          using vc vc1 cs by simp
        have s4: "counted_ids (det_tracker (count_line_loop rest d1)) = counted_ids (det_tracker d)"
          using ih cr1 by simp
        have s5: "lane_enabled (count_line_loop rest d1) = lane_enabled d"
          using ih le1 by simp
        show ?thesis
          unfolding run using cs s3 s4 s5 unfolding A_def B_def by blast
      next
        case False
        define d1 where "d1 = d\<lparr>det_tracker := t'\<rparr>"
        have run: "count_line_loop (oid # rest) d = count_line_loop rest d1"
          using notin nofilter clc False by (auto simp add: d1_def)
        have e1: "crossed_ids (det_tracker d1) = crossed_ids (det_tracker d)"
          using c False by (simp add: d1_def)
        have e2: "counted_ids (det_tracker d1) = counted_ids (det_tracker d)"
          using c by (simp add: d1_def)
        have e3: "vehicle_count d1 = vehicle_count d" "lane_enabled d1 = lane_enabled d"
          by (simp_all add: d1_def)
        show ?thesis unfolding run using Cons.IH[of d1] unfolding e1 e2 e3 by blast
      qed
    qed
  qed
qed

lemma process_frame_tracking_count:
  assumes "process_frame_tracking d dets = Inr d'"
  shows "lane_enabled d' = lane_enabled d \<and> counted_set d \<subseteq> counted_set d' \<and>
         finite (counted_set d' - counted_set d) \<and>
         vehicle_count d' = vehicle_count d + int (card (counted_set d' - counted_set d))"
proof -
  from assms obtain t' where u: "update (det_tracker d) dets = Inr t'"
    by (auto simp: process_frame_tracking_def split: sum.splits)
  define d1 where "d1 = d\<lparr>det_tracker := t'\<rparr>"
  from same_update[OF u] have ss: "counted_ids t' = counted_ids (det_tracker d)"
    "crossed_ids t' = crossed_ids (det_tracker d)" by (simp_all add: same_settings_def)
  have d1: "lane_enabled d1 = lane_enabled d" "vehicle_count d1 = vehicle_count d"
    "counted_ids (det_tracker d1) = counted_ids (det_tracker d)"
    "crossed_ids (det_tracker d1) = crossed_ids (det_tracker d)"
    using ss by (simp_all add: d1_def)
  show ?thesis
  proof (cases "lane_enabled d")
    case True
    define d2 where "d2 = count_zone_loop (map fst (objects t')) d1"
    have d': "d' = d2\<lparr>frame_count := frame_count d2 + 1\<rparr>"
      using assms u True by (simp add: process_frame_tracking_def d1_def d2_def Let_def)
    note z = count_zone_loop_inv[of d1 "map fst (objects t')", folded d2_def, unfolded d1]
    have le: "lane_enabled d' = lane_enabled d" using z d' by simp
    have cs: "counted_set d' = counted_ids (det_tracker d2)" using le True d' by (simp add: counted_set_def)
    have cs0: "counted_set d = counted_ids (det_tracker d)" using True by (simp add: counted_set_def)
    have vc: "vehicle_count d' = vehicle_count d2" using d' by simp
    show ?thesis unfolding cs cs0 vc using z le by blast
  next
    case False
    define d2 where "d2 = count_line_loop (map fst (objects t')) d1"
    have d': "d' = d2\<lparr>frame_count := frame_count d2 + 1\<rparr>"
      using assms u False by (simp add: process_frame_tracking_def d1_def d2_def Let_def)
    note z = count_line_loop_inv[of d1 "map fst (objects t')", folded d2_def, unfolded d1]
    have le: "lane_enabled d' = lane_enabled d" using z d' by simp
    have cs: "counted_set d' = crossed_ids (det_tracker d2)" using le False d' by (simp add: counted_set_def)
    have cs0: "counted_set d = crossed_ids (det_tracker d)" using False by (simp add: counted_set_def)
    have vc: "vehicle_count d' = vehicle_count d2" using d' by simp
    show ?thesis unfolding cs cs0 vc using z le by blast
  qed
qed

lemma process_frames_count:
  "process_frames d frames = Inr d' \<Longrightarrow>
     lane_enabled d' = lane_enabled d \<and> counted_set d \<subseteq> counted_set d' \<and>
     finite (counted_set d' - counted_set d) \<and>
     vehicle_count d' = vehicle_count d + int (card (counted_set d' - counted_set d))"
proof (induction frames arbitrary: d)
  case Nil
  then show ?case by simp
next
  case (Cons f fs)
  from Cons.prems obtain d1 where f: "process_frame_tracking d f = Inr d1"
    and r: "process_frames d1 fs = Inr d'" by (auto split: sum.splits)
  note a = process_frame_tracking_count[OF f]
  note b = Cons.IH[OF r]
  from a b have sub1: "counted_set d \<subseteq> counted_set d1" and sub2: "counted_set d1 \<subseteq> counted_set d'"
    and f1: "finite (counted_set d1 - counted_set d)" and f2: "finite (counted_set d' - counted_set d1)"
    by blast+
  note cc = card_chain[OF sub1 sub2 f1 f2]
  have "vehicle_count d' = vehicle_count d + int (card (counted_set d' - counted_set d))"
    using a b cc by simp
  moreover have "lane_enabled d' = lane_enabled d" using a b by simp
  ultimately show ?case using cc by blast
qed

text \<open>
  Claim C1. Counting is idempotent per track. An id that is in \<open>counted_ids\<close> makes
  \<open>check_zone_counting\<close> return \<open>False\<close> and an id that is in \<open>crossed_ids\<close> makes
  \<open>check_line_crossing\<close> return \<open>False\<close>, both without a state change. Over any sequence
  of frames the set of the active strategy only grows and \<open>vehicle_count\<close> grows by exactly
  the number of ids that entered it, so an id that is already in the set never adds to the
  count again.
\<close>

theorem counting_idempotent_per_track:
  "(oid \<in> counted_ids s \<longrightarrow> check_zone_counting s oid = (False, s)) \<and>
   (oid \<in> crossed_ids s \<longrightarrow> check_line_crossing s oid l = (False, s)) \<and>
   (\<forall>d'. process_frames d frames = Inr d' \<longrightarrow>
      lane_enabled d' = lane_enabled d \<and>
      (lane_enabled d \<longrightarrow>
         counted_ids (det_tracker d) \<subseteq> counted_ids (det_tracker d') \<and>
         finite (counted_ids (det_tracker d') - counted_ids (det_tracker d)) \<and>
         vehicle_count d' = vehicle_count d
           + int (card (counted_ids (det_tracker d') - counted_ids (det_tracker d)))) \<and>
      (\<not> lane_enabled d \<longrightarrow>
         crossed_ids (det_tracker d) \<subseteq> crossed_ids (det_tracker d') \<and>
         finite (crossed_ids (det_tracker d') - crossed_ids (det_tracker d)) \<and>
         vehicle_count d' = vehicle_count d
           + int (card (crossed_ids (det_tracker d') - crossed_ids (det_tracker d)))))"
proof (intro conjI impI allI)
  fix d' assume run: "process_frames d frames = Inr d'"
  note c = process_frames_count[OF run]
  show le: "lane_enabled d' = lane_enabled d" using c by simp
  {
    assume l: "lane_enabled d"
    then have e: "counted_set d = counted_ids (det_tracker d)"
      "counted_set d' = counted_ids (det_tracker d')" using le by (simp_all add: counted_set_def)
    show "counted_ids (det_tracker d) \<subseteq> counted_ids (det_tracker d')" using c unfolding e by simp
    show "finite (counted_ids (det_tracker d') - counted_ids (det_tracker d))" using c unfolding e by simp
    show "vehicle_count d' = vehicle_count d
           + int (card (counted_ids (det_tracker d') - counted_ids (det_tracker d)))"
      using c unfolding e by simp
  }
  {
    assume l: "\<not> lane_enabled d"
    then have e: "counted_set d = crossed_ids (det_tracker d)"
      "counted_set d' = crossed_ids (det_tracker d')" using le by (simp_all add: counted_set_def)
    show "crossed_ids (det_tracker d) \<subseteq> crossed_ids (det_tracker d')" using c unfolding e by simp
    show "finite (crossed_ids (det_tracker d') - crossed_ids (det_tracker d))" using c unfolding e by simp
    show "vehicle_count d' = vehicle_count d
           + int (card (crossed_ids (det_tracker d') - crossed_ids (det_tracker d)))"
      using c unfolding e by simp
  }
qed (simp_all add: check_zone_counting_def check_line_crossing_def)

lemmas example_defs = example_tracker_def example_counted_tracker_def example_object_def
  example_detector_def init_tracker_def example_young_tracker_def

lemmas update_defs = process_frame_tracking_def update_def update_reg_def mark_disappeared_def
  deregister_def Let_def



theorem counting_idempotent_per_track_witness:
  "0 \<in> counted_ids example_counted_tracker \<and> 0 \<in> crossed_ids example_counted_tracker \<and>
   check_zone_counting example_counted_tracker 0 = (False, example_counted_tracker) \<and>
   check_line_crossing example_counted_tracker 0 345 = (False, example_counted_tracker) \<and>
   vehicle_count (projr (process_frames (example_detector example_counted_tracker True) [[], []]))
     = vehicle_count (example_detector example_counted_tracker True)"
proof -
  have m: "0 \<in> counted_ids example_counted_tracker" "0 \<in> crossed_ids example_counted_tracker"
    by (simp_all add: example_defs)
  have v: "vehicle_count (projr (process_frames (example_detector example_counted_tracker True) [[], []]))
     = vehicle_count (example_detector example_counted_tracker True)"
    by (simp add: example_defs update_defs)
  from counting_idempotent_per_track[of 0 example_counted_tracker 345
          "example_detector example_counted_tracker True" "[[], []]"] m
  have "check_zone_counting example_counted_tracker 0 = (False, example_counted_tracker)"
    and "check_line_crossing example_counted_tracker 0 345 = (False, example_counted_tracker)"
    by blast+
  with m v show ?thesis by blast
qed

text \<open>
  Claim C10. A track whose trajectory has fewer than five points (or none) is never
  zone-counted: \<open>check_zone_counting\<close> returns \<open>False\<close> and leaves the whole state, and so
  \<open>counted_ids\<close> and \<open>zone_entry_positions\<close>, unchanged, whatever its movement. Conversely a
  call that records an entry position, counts, or returns \<open>True\<close> has a trajectory of at
  least five points.
\<close>

theorem zone_counting_needs_five_points:
  "((case map_of (trajectory_points s) oid of None \<Rightarrow> True | Some points \<Rightarrow> length points < 5)
      \<longrightarrow> check_zone_counting s oid = (False, s)) \<and>
   (zone_entry_positions (snd (check_zone_counting s oid)) \<noteq> zone_entry_positions s
      \<or> counted_ids (snd (check_zone_counting s oid)) \<noteq> counted_ids s
      \<or> fst (check_zone_counting s oid)
      \<longrightarrow> (\<exists>points. map_of (trajectory_points s) oid = Some points \<and> 5 \<le> length points))"
  by (auto simp: check_zone_counting_def Let_def split: option.splits if_splits)

theorem zone_counting_needs_five_points_witness:
  "check_zone_counting example_young_tracker 0 = (False, example_young_tracker) \<and>
   snd (last [(100::real, 50::real), (100, 80), (100, 120), (100, 150)]) - 50
      \<ge> min_movement_to_count example_young_tracker"
  using zone_counting_needs_five_points[of example_young_tracker 0]
  by (simp add: example_defs)

lemma sqrt_less_iff_sq: "0 \<le> b \<Longrightarrow> sqrt a < b \<longleftrightarrow> a < b\<^sup>2"
  by (metis abs_of_nonneg real_sqrt_abs real_sqrt_less_iff)

lemma py_int_bounds: "\<bar>real_of_int (py_int x) - x\<bar> < 1 \<and> \<bar>real_of_int (py_int x)\<bar> \<le> \<bar>x\<bar>"
  unfolding py_int_def by (cases "0 \<le> x") (simp, linarith, simp, linarith)

text \<open>
  Claim C8, as amended. On a successful match (the branch of the matching loop that found a
  best candidate \<open>j\<close> for the track), each coordinate of the stored box becomes
  \<open>int(old * (1 - a) + new * a)\<close> as Python evaluates it, with \<open>a\<close> the smoothing factor: the
  difference, the two products and the sum are each rounded to the nearest double and the
  result is truncated toward zero. The stored value is an integer, not the exact smoothed
  value, and it can differ from the truncated exact value.
\<close>

theorem smoothing_on_match:
  assumes "match_track detections cs (obj_id, c) (s, md, mo) = Inr (s', md', mo')"
    and "obj_id \<notin> mo"
    and "snd (best_match_loop (max_distance s) md c (List.enumerate 0 cs) (None, None)) = Some j"
    and "map_of (objects s) obj_id = Some ob"
    and "obj_bbox ob = (o1, o2, o3, o4)" and "bbox (detections ! j) = (n1, n2, n3, n4)"
    and "a = smoothing_factor s"
  shows "map_option obj_bbox (map_of (objects s') obj_id)
           = Some (real_of_int (py_int (float_add (float_mul o1 (float_sub 1 a)) (float_mul n1 a))),
                   real_of_int (py_int (float_add (float_mul o2 (float_sub 1 a)) (float_mul n2 a))),
                   real_of_int (py_int (float_add (float_mul o3 (float_sub 1 a)) (float_mul n3 a))),
                   real_of_int (py_int (float_add (float_mul o4 (float_sub 1 a)) (float_mul n4 a))))"
  using assms
  by (auto simp: match_track_def Let_def smooth_bbox_def smooth_coord_def update_trajectory_def
        AList.update_conv')

lemmas double_eval = float_mul_def float_add_def float_sub_def double_round_def
  binary_exponent.simps round_half_even_def pow2_def

text \<open>The double nearest to 0.65.\<close>

lemma double_round_065:
  "double_round 0.65 = 5854679515581645 / 9007199254740992"
  "double_round (13 / 20) = 5854679515581645 / 9007199254740992"
  by (simp_all add: double_eval Let_def)

text \<open>Smoothed coordinates for the inputs of the examples, computed once. Smoothing 24
  towards 4 gives 10: the exact value is 11, the float sum is just below 11.\<close>

lemma smooth_values:
    "smooth_coord (5854679515581645 / 9007199254740992) 0 0 = 0"
    "smooth_coord (5854679515581645 / 9007199254740992) 0 1 = 0"
    "smooth_coord (5854679515581645 / 9007199254740992) 10 10 = 10"
    "smooth_coord (5854679515581645 / 9007199254740992) 10 11 = 10"
    "smooth_coord (5854679515581645 / 9007199254740992) 24 4 = 10"
    "smooth_coord (5854679515581645 / 9007199254740992) 124 104 = 111"
    "smooth_coord (5854679515581645 / 9007199254740992) 1000 1000 = 1000"
    "smooth_coord (5854679515581645 / 9007199254740992) 1010 1010 = 1010"
    "smooth_coord (5854679515581645 / 9007199254740992) 90 90 = 90"
    "smooth_coord (5854679515581645 / 9007199254740992) 110 110 = 110"
    "smooth_coord (5854679515581645 / 9007199254740992) 290 290 = 290"
    "smooth_coord (5854679515581645 / 9007199254740992) 310 310 = 310"
    "smooth_coord (5854679515581645 / 9007199254740992) 290 366 = 339"
    "smooth_coord (5854679515581645 / 9007199254740992) 310 386 = 359"
    "smooth_coord (5854679515581645 / 9007199254740992) 290 367 = 340"
    "smooth_coord (5854679515581645 / 9007199254740992) 310 387 = 360"
  by (simp_all add: smooth_coord_def py_int_def double_eval Let_def)

lemma smooth_coord_24_4:
  "float_add (float_mul 24 (float_sub 1 (double_round 0.65))) (float_mul 4 (double_round 0.65)) < 11 \<and>
   (24 :: real) * (1 - 0.65) + 4 * 0.65 = 11"
  by (simp add: double_eval Let_def)

lemmas tracker_eval = update_def update_reg_def match_phase_def object_entries_def
  finish_update_def mark_disappeared_def match_track_def register_def deregister_def
  euclid_dist_def enumerate_eq_zip sqrt_less_iff_sq Let_def smooth_bbox_def
  update_trajectory_def deque_append_def get_center_def double_round_065 smooth_values

text \<open>
  Claim C8 as stated fails: track 0 has box \<open>(0, 0, 10, 10)\<close>, the matched candidate has box
  \<open>(1, 1, 11, 11)\<close>, the smoothing factor is the double 0.65; the stored box stays
  \<open>(0, 0, 10, 10)\<close>, where exact smoothing gives about \<open>(0.65, 0.65, 10.65, 10.65)\<close>.
\<close>

theorem exact_smoothing_counterexample:
  "smoothing_factor example_single_tracker = double_round 0.65 \<and>
   map_option obj_bbox (map_of (objects (projr
       (update example_single_tracker [example_detection (1, 1, 11, 11)]))) 0)
     = Some (0, 0, 10, 10) \<and>
   (0, 0, 10, 10) \<noteq> ((0::real) * (1 - double_round 0.65) + 1 * double_round 0.65,
                        (0::real) * (1 - double_round 0.65) + 1 * double_round 0.65,
                        (10::real) * (1 - double_round 0.65) + 11 * double_round 0.65,
                        (10::real) * (1 - double_round 0.65) + 11 * double_round 0.65)"
  by (simp add: tracker_eval example_single_tracker_def init_tracker_def example_detection_def)

theorem smoothing_on_match_witness:
  "map_option obj_bbox (map_of (objects (fst (projr
       (match_track [example_detection (4, 4, 104, 104)] [(54, 54)] (0, (74, 74))
          (example_tracker_24, {}, {}))))) 0)
     = Some (10, 10, 111, 111)"
proof -
  let ?a = "5854679515581645 / 9007199254740992 :: real"
  let ?r = "match_track [example_detection (4, 4, 104, 104)] [(54, 54)] (0, (74, 74))
              (example_tracker_24, {}, {})"
  have sf: "?a = smoothing_factor example_tracker_24"
    by (simp add: example_tracker_24_def init_tracker_def double_round_065)
  have r: "?r = Inr (fst (projr ?r), {0}, {0})"
    by (simp add: tracker_eval example_tracker_24_def init_tracker_def example_detection_def)
  have b: "snd (best_match_loop (max_distance example_tracker_24) {} (74, 74)
                  (List.enumerate 0 [(54, 54)]) (None, None)) = Some 0"
    by (simp add: tracker_eval example_tracker_24_def init_tracker_def)
  have ob: "map_of (objects example_tracker_24) 0
              = Some \<lparr> obj_bbox = (24, 24, 124, 124), obj_class = ''vehicle'',
                       obj_confidence = 0.9, obj_history = [(24, 24, 124, 124)] \<rparr>"
    by (simp add: example_tracker_24_def)
  have n: "bbox ([example_detection (4, 4, 104, 104)] ! 0) = (4, 4, 104, 104)"
    by (simp add: example_detection_def)
  have v: "real_of_int (py_int (float_add (float_mul 24 (float_sub 1 ?a)) (float_mul 4 ?a))) = 10"
    "real_of_int (py_int (float_add (float_mul 124 (float_sub 1 ?a)) (float_mul 104 ?a))) = 111"
    using smooth_values(5,6) unfolding smooth_coord_def by simp_all
  from smoothing_on_match[OF r _ b ob _ n sf, of 24 24 124 124]
  show ?thesis unfolding v by simp
qed

lemma apply_mask_map: "apply_mask xs (map f xs) = filter f xs"
  unfolding apply_mask_def by (induction xs) auto

lemma nms_loop_Cons:
  "nms_loop t ((i, b) # rest) =
     (if rest = [] then [i]
      else i # nms_loop t (filter (\<lambda>p. np_le (iou_pair b (snd p)) t) rest))"
proof -
  have "map (\<lambda>v. np_le v t) (hd (bbox_iou [b] (map snd rest)))
          = map (\<lambda>p. np_le (iou_pair b (snd p)) t) rest"
    by (simp add: bbox_iou_def comp_def)
  then show ?thesis by (simp add: Let_def apply_mask_map del: nms_loop.simps(2) add: nms_loop.simps(2)[of t i b rest])
qed

lemma iou_pair_sym: "iou_pair b c = iou_pair c b"
  by (cases b; cases c) (simp add: iou_pair_def Let_def max.commute min.commute add.commute)

lemma np_gt_not_le: "np_gt v t \<Longrightarrow> \<not> np_le v t"
  by (cases v) auto

lemma nms_loop_disjoint:
  assumes "0 \<le> t"
  shows "(\<forall>i<length xs. \<forall>j<length xs. i \<noteq> j \<longrightarrow> iou_pair (snd (xs ! i)) (snd (xs ! j)) = Finite 0)
           \<Longrightarrow> nms_loop t xs = map fst xs"
proof (induction xs)
  case Nil
  show ?case by simp
next
  case (Cons p rest)
  obtain i b where p: "p = (i, b)" by (cases p)
  have all: "\<forall>q \<in> set rest. np_le (iou_pair b (snd q)) t"
  proof
    fix q assume "q \<in> set rest"
    then obtain k where k: "k < length rest" "rest ! k = q" by (auto simp: in_set_conv_nth)
    from Cons.prems[rule_format, of 0 "Suc k"] k p
    have "iou_pair b (snd q) = Finite 0" by simp
    with assms show "np_le (iou_pair b (snd q)) t" by simp
  qed
  then have f: "filter (\<lambda>p. np_le (iou_pair b (snd p)) t) rest = rest" by (simp add: filter_id_conv)
  have "\<forall>i<length rest. \<forall>j<length rest. i \<noteq> j \<longrightarrow>
          iou_pair (snd (rest ! i)) (snd (rest ! j)) = Finite 0"
  proof (intro allI impI)
    fix i j assume "i < length rest" "j < length rest" "i \<noteq> j"
    with Cons.prems[rule_format, of "Suc i" "Suc j"] show
      "iou_pair (snd (rest ! i)) (snd (rest ! j)) = Finite 0" by simp
  qed
  from Cons.IH[OF this] have ih: "nms_loop t rest = map fst rest" .
  show ?case unfolding p nms_loop_Cons f using ih by simp
qed

lemma mset_argsort: "mset (argsort scores) = mset [0..<length scores]"
proof -
  have a: "map snd (zip scores [0..<length scores]) = [0..<length scores]" by simp
  have "mset (argsort scores) = image_mset snd (mset (sort_key fst (zip scores [0..<length scores])))"
    by (simp only: argsort_def mset_map)
  also have "\<dots> = image_mset snd (mset (zip scores [0..<length scores]))"
    by (simp only: mset_sort)
  also have "\<dots> = mset (map snd (zip scores [0..<length scores]))"
    by (simp only: mset_map)
  finally show ?thesis unfolding a .
qed

lemma argsort_perm:
  "set (argsort scores) = {0..<length scores}" "distinct (argsort scores)"
  "length (argsort scores) = length scores"
proof -
  show "set (argsort scores) = {0..<length scores}"
    using mset_eq_setD[OF mset_argsort[of scores]] by simp
  show "distinct (argsort scores)"
    using mset_eq_imp_distinct_iff[OF mset_argsort[of scores]] by simp
  show "length (argsort scores) = length scores"
    using mset_eq_length[OF mset_argsort[of scores]] by simp
qed

lemma non_max_suppression_disjoint:
  assumes len: "length scores = length boxes" and t: "0 \<le> t"
    and dis: "\<forall>i<length boxes. \<forall>j<length boxes. i \<noteq> j \<longrightarrow>
                iou_pair (boxes ! i) (boxes ! j) = Finite 0"
  shows "non_max_suppression boxes scores t = Inr (rev (argsort scores))"
proof (cases "length boxes = 0")
  case True
  then show ?thesis using len by (simp add: non_max_suppression_def argsort_def)
next
  case False
  define order where "order = rev (argsort scores)"
  have so: "set order = {0..<length boxes}" and di: "distinct order"
    using argsort_perm[of scores] len by (simp_all add: order_def)
  define xs where "xs = zip order (map (\<lambda>i. boxes ! i) order)"
  have lx: "length xs = length order" by (simp add: xs_def)
  have "\<forall>i<length xs. \<forall>j<length xs. i \<noteq> j \<longrightarrow> iou_pair (snd (xs ! i)) (snd (xs ! j)) = Finite 0"
  proof (intro allI impI)
    fix i j assume ij: "i < length xs" "j < length xs" "i \<noteq> j"
    then have ne: "order ! i \<noteq> order ! j" using di lx by (simp add: nth_eq_iff_index_eq)
    have "order ! i \<in> set order" "order ! j \<in> set order" using ij lx by simp_all
    then have "order ! i < length boxes" "order ! j < length boxes" using so by simp_all
    with dis ne have "iou_pair (boxes ! (order ! i)) (boxes ! (order ! j)) = Finite 0" by blast
    then show "iou_pair (snd (xs ! i)) (snd (xs ! j)) = Finite 0"
      using ij lx by (simp add: xs_def)
  qed
  from nms_loop_disjoint[OF t this] have "nms_loop t xs = order" by (simp add: xs_def)
  moreover have "\<not> (\<exists>i \<in> set order. length boxes \<le> i)" using so by auto
  ultimately show ?thesis using False
    by (simp add: non_max_suppression_def Let_def order_def[symmetric] xs_def[symmetric])
qed

lemma argsort_two: "argsort [s0, s1] = (if s0 \<le> s1 then [0, 1] else [1, 0])"
  by (simp add: argsort_def upt_rec)

lemma non_max_suppression_two:
  assumes "s0 \<noteq> s1" and "np_gt (iou_pair b0 b1) t"
  shows "non_max_suppression [b0, b1] [s0, s1] t = Inr [if s0 > s1 then 0 else 1]"
proof -
  have a: "\<not> np_le (iou_pair b0 b1) t" "\<not> np_le (iou_pair b1 b0) t"
    using np_gt_not_le[OF assms(2)] iou_pair_sym[of b0 b1] by simp_all
  show ?thesis
  proof (cases "s0 \<le> s1")
    case True
    then show ?thesis using assms(1) a
      by (simp add: non_max_suppression_def argsort_two nms_loop_Cons del: nms_loop.simps(2))
  next
    case False
    then show ?thesis using assms(1) a
      by (simp add: non_max_suppression_def argsort_two nms_loop_Cons del: nms_loop.simps(2))
  qed
qed

text \<open>
  Claim C4. \<open>non_max_suppression\<close> on two boxes whose IoU exceeds the threshold and whose
  scores differ returns only the index of the higher-scoring box. On \<open>N\<close> boxes with one score
  each whose pairwise IoU is 0, with a threshold that is not negative, it returns every index
  \<open>0..N-1\<close> exactly once.
\<close>

theorem nms_overlapping_pair_and_disjoint_boxes:
  "(s0 \<noteq> s1 \<and> np_gt (iou_pair b0 b1) t \<longrightarrow>
      non_max_suppression [b0, b1] [s0, s1] t = Inr [if s0 > s1 then 0 else 1]) \<and>
   (length scores = length boxes \<and> 0 \<le> t \<and>
    (\<forall>i<length boxes. \<forall>j<length boxes. i \<noteq> j \<longrightarrow> iou_pair (boxes ! i) (boxes ! j) = Finite 0) \<longrightarrow>
      (\<exists>keep. non_max_suppression boxes scores t = Inr keep \<and>
              set keep = {0..<length boxes} \<and> distinct keep \<and> length keep = length boxes))"
proof (intro conjI impI)
  assume "s0 \<noteq> s1 \<and> np_gt (iou_pair b0 b1) t"
  then show "non_max_suppression [b0, b1] [s0, s1] t = Inr [if s0 > s1 then 0 else 1]"
    using non_max_suppression_two by blast
next
  assume a: "length scores = length boxes \<and> 0 \<le> t \<and>
    (\<forall>i<length boxes. \<forall>j<length boxes. i \<noteq> j \<longrightarrow> iou_pair (boxes ! i) (boxes ! j) = Finite 0)"
  then have "non_max_suppression boxes scores t = Inr (rev (argsort scores))"
    using non_max_suppression_disjoint by blast
  moreover have "set (rev (argsort scores)) = {0..<length boxes}" "distinct (rev (argsort scores))"
    "length (rev (argsort scores)) = length boxes"
    using argsort_perm[of scores] a by simp_all
  ultimately show "\<exists>keep. non_max_suppression boxes scores t = Inr keep \<and>
              set keep = {0..<length boxes} \<and> distinct keep \<and> length keep = length boxes"
    by blast
qed

lemmas nms_eval = non_max_suppression_def argsort_def nms_loop_Cons iou_pair_def np_divide_def
  Let_def upt_rec

theorem nms_overlapping_pair_and_disjoint_boxes_witness:
  "np_gt (iou_pair (0, 0, 10, 10) (1, 1, 11, 11)) 0.45 \<and>
   non_max_suppression [(0, 0, 10, 10), (1, 1, 11, 11)] [0.8, 0.9] 0.45 = Inr [1] \<and>
   iou_pair (0, 0, 10, 10) (20, 20, 30, 30) = Finite 0 \<and>
   non_max_suppression [(0, 0, 10, 10), (20, 20, 30, 30), (40, 0, 50, 10)] [0.5, 0.9, 0.7] 0.45
     = Inr [1, 2, 0]"
proof -
  have dis: "\<forall>i<length [(0::real, 0::real, 10::real, 10::real), (20, 20, 30, 30), (40, 0, 50, 10)].
             \<forall>j<length [(0::real, 0::real, 10::real, 10::real), (20, 20, 30, 30), (40, 0, 50, 10)]. i \<noteq> j \<longrightarrow>
          iou_pair ([(0, 0, 10, 10), (20, 20, 30, 30), (40, 0, 50, 10)] ! i)
                   ([(0, 0, 10, 10), (20, 20, 30, 30), (40, 0, 50, 10)] ! j) = Finite 0"
    by (simp add: All_less_Suc2 numeral_3_eq_3 iou_pair_def np_divide_def Let_def)
  have gt: "np_gt (iou_pair (0, 0, 10, 10) (1, 1, 11, 11)) 0.45"
    by (simp add: iou_pair_def np_divide_def Let_def)
  show ?thesis
    using nms_overlapping_pair_and_disjoint_boxes[of "0.8" "0.9" "(0, 0, 10, 10)" "(1, 1, 11, 11)" "0.45"
            "[0.5, 0.9, 0.7]" "[(0, 0, 10, 10), (20, 20, 30, 30), (40, 0, 50, 10)]"] dis gt
    by (simp add: nms_eval del: nms_loop.simps(2))
qed

lemma postprocess_try_malformed:
  assumes "outputs = [] \<or> malformed_shape (hd outputs)"
  shows "\<exists>e. postprocess_try self outputs ratio pad img_shape conf = Inl e"
proof (cases outputs)
  case Nil
  then show ?thesis by (simp add: postprocess_try_def)
next
  case (Cons p rest)
  with assms have m: "malformed_shape p" by simp
  show ?thesis
  proof (cases p)
    case (Arr0 x)
    then show ?thesis using Cons by (simp add: postprocess_try_def)
  next
    case (Arr1 xs)
    then show ?thesis using Cons by (simp add: postprocess_try_def)
  next
    case (Arr2 rows)
    then show ?thesis using Cons m by (simp add: postprocess_try_def)
  next
    case (Arr3 blocks)
    then show ?thesis using Cons m
      by (auto simp: postprocess_try_def split: list.splits)
  qed
qed

text \<open>
  Claim C3, as amended. \<open>postprocess\<close> never raises: the whole decoding runs under
  \<open>except Exception\<close>, whose handler returns the empty list. On an empty output list or a
  tensor of malformed shape the indexing raises inside the \<open>try\<close> block and \<open>postprocess\<close>
  returns the empty detection list.
\<close>

theorem postprocess_swallows_decode_errors:
  "(\<exists>detections. postprocess self outputs ratio pad img_shape conf_arg = Inr detections) \<and>
   (outputs = [] \<or> malformed_shape (hd outputs) \<longrightarrow>
      postprocess self outputs ratio pad img_shape conf_arg = Inr [])"
proof (intro conjI impI)
  show "\<exists>detections. postprocess self outputs ratio pad img_shape conf_arg = Inr detections"
    by (simp add: postprocess_def Let_def split: sum.split)
next
  assume a: "outputs = [] \<or> malformed_shape (hd outputs)"
  define conf where "conf = (case conf_arg of None \<Rightarrow> conf_thres self | Some c \<Rightarrow> c)"
  from postprocess_try_malformed[OF a, of self ratio pad img_shape conf]
  obtain e where "postprocess_try self outputs ratio pad img_shape conf = Inl e" by blast
  then show "postprocess self outputs ratio pad img_shape conf_arg = Inr []"
    by (simp add: postprocess_def Let_def conf_def)
qed

theorem postprocess_swallows_decode_errors_witness:
  "malformed_shape (Arr3 [[[1, 2], [3, 4]], [[5, 6], [7, 8]]]) \<and>
   postprocess example_yolo [Arr3 [[[1, 2], [3, 4]], [[5, 6], [7, 8]]]] 1 (0, 0) (480, 640) None = Inr []"
  using postprocess_swallows_decode_errors[of example_yolo "[Arr3 [[[1, 2], [3, 4]], [[5, 6], [7, 8]]]]"
          1 "(0, 0)" "(480, 640)" None]
  by simp

text \<open>
  Claim C3 as stated fails: on the one-dimensional tensor \<open>[1, 2, 3]\<close> the result is the normal
  return value \<open>[]\<close>, not an error.
\<close>

theorem malformed_tensor_counterexample:
  "postprocess example_yolo [Arr1 [1, 2, 3]] 1 (0, 0) (480, 640) None = Inr [] \<and>
   \<not> isl (postprocess example_yolo [Arr1 [1, 2, 3]] 1 (0, 0) (480, 640) None)"
  by (simp add: postprocess_def postprocess_try_def example_yolo_def)

text \<open>A well-formed tensor, decoded: four anchors with three classes; one is below the
  confidence threshold, one is suppressed, one has no area after clipping.\<close>

lemma postprocess_example:
  "postprocess example_yolo
     [Arr2 [[100, 100, 40, 20, 0.1, 0.9, 0.3], [102, 100, 40, 20, 0.1, 0.8, 0.3],
            [300, 300, 10, 10, 0.7, 0.1, 0.2], [50, 50, 10, 10, 0.1, 0.1, 0.2]]]
     0.5 (0, 10) (480, 640) None
   = Inr [\<lparr> bbox = (160, 160, 240, 200), confidence = 0.9, class_name = Some ''1'', class_id = 1 \<rparr>]"
  by (simp add: postprocess_def postprocess_try_def example_yolo_def np_max_def np_argmax_def
     non_max_suppression_def argsort_def upt_rec Let_def bbox_iou_def apply_mask_def iou_pair_def
     np_divide_def remap_box_def np_clip_def)

lemma rate_threshold:
  assumes "0 < n"
  shows "\<not> (real k / real n < 0.6) \<longleftrightarrow> 3 * n \<le> 5 * k"
proof -
  have "real k / real n < 0.6 \<longleftrightarrow> real k < 0.6 * real n"
    using assms by (simp add: pos_divide_less_eq)
  also have "\<dots> \<longleftrightarrow> 5 * real k < 3 * real n" by auto
  also have "\<dots> \<longleftrightarrow> real (5 * k) < real (3 * n)" by simp
  also have "\<dots> \<longleftrightarrow> 5 * k < 3 * n" by (simp only: of_nat_less_iff)
  finally show ?thesis by auto
qed

lemma py_tail_length: "0 < n \<Longrightarrow> n \<le> length xs \<Longrightarrow> length (py_tail n xs) = n"
  by (simp add: py_tail_def)

lemma stable_general:
  assumes r: "stability_ratio g = 0.6" and n: "0 < min_tracklet_frames g"
  shows "is_enhanced_stable_detection g cur =
           Inr (min_tracklet_frames g \<le> length (ambulance_detection_history g) \<and>
                3 * min_tracklet_frames g
                  \<le> 5 * length (filter (\<lambda>b. b)
                          (py_tail (min_tracklet_frames g) (ambulance_detection_history g))) \<and>
                confidence_criterion g \<and> position_criterion g \<and> current_quality_criterion cur)"
proof (cases "length (ambulance_detection_history g) < min_tracklet_frames g")
  case True
  then show ?thesis by (simp add: is_enhanced_stable_detection_def)
next
  case False
  then have le: "min_tracklet_frames g \<le> length (ambulance_detection_history g)" by simp
  define recent where "recent = py_tail (min_tracklet_frames g) (ambulance_detection_history g)"
  have len: "length recent = min_tracklet_frames g"
    unfolding recent_def by (rule py_tail_length[OF n le])
  note rt = rate_threshold[OF n, of "length (filter (\<lambda>b. b) recent)"]
  have ne: "length recent \<noteq> 0" using len n by simp
  show ?thesis
    unfolding is_enhanced_stable_detection_def Let_def recent_def[symmetric] r
    using False le ne rt unfolding len by auto
qed

text \<open>
  Claim C6, as amended. With \<open>stability_ratio = 0.6\<close> the check looks at the
  \<open>min_tracklet_frames\<close> most recent samples, which \<open>__init__\<close> sets to 3 (not 5): the result is
  true exactly when the history holds at least 3 samples, at least 2 of the 3 most recent are
  detected, and the confidence, position and current-detection criteria pass; so 1 of 3 or
  fewer yields false. With \<open>min_tracklet_frames = 5\<close> the same holds with at least 3 of the 5
  most recent (2 of 5 yields false).
\<close>

theorem stability_gate_rate_criterion:
  "(stability_ratio g = 0.6 \<and> min_tracklet_frames g = 3 \<longrightarrow>
      is_enhanced_stable_detection g cur =
        Inr (3 \<le> length (ambulance_detection_history g) \<and>
             2 \<le> length (filter (\<lambda>b. b) (py_tail 3 (ambulance_detection_history g))) \<and>
             confidence_criterion g \<and> position_criterion g \<and> current_quality_criterion cur)) \<and>
   (stability_ratio g = 0.6 \<and> min_tracklet_frames g = 5 \<longrightarrow>
      is_enhanced_stable_detection g cur =
        Inr (5 \<le> length (ambulance_detection_history g) \<and>
             3 \<le> length (filter (\<lambda>b. b) (py_tail 5 (ambulance_detection_history g))) \<and>
             confidence_criterion g \<and> position_criterion g \<and> current_quality_criterion cur))"
proof (intro conjI impI)
  assume a: "stability_ratio g = 0.6 \<and> min_tracklet_frames g = 3"
  then have "0 < min_tracklet_frames g" by simp
  from stable_general[OF conjunct1[OF a] this, of cur] a
  show "is_enhanced_stable_detection g cur =
        Inr (3 \<le> length (ambulance_detection_history g) \<and>
             2 \<le> length (filter (\<lambda>b. b) (py_tail 3 (ambulance_detection_history g))) \<and>
             confidence_criterion g \<and> position_criterion g \<and> current_quality_criterion cur)"
    by (auto simp: )
next
  assume a: "stability_ratio g = 0.6 \<and> min_tracklet_frames g = 5"
  then have "0 < min_tracklet_frames g" by simp
  from stable_general[OF conjunct1[OF a] this, of cur] a
  show "is_enhanced_stable_detection g cur =
        Inr (5 \<le> length (ambulance_detection_history g) \<and>
             3 \<le> length (filter (\<lambda>b. b) (py_tail 5 (ambulance_detection_history g))) \<and>
             confidence_criterion g \<and> position_criterion g \<and> current_quality_criterion cur)"
    by (auto simp: )
qed

lemmas gate_eval = example_gate_def init_gate_def append_detection_history_def deque_append_def
  py_tail_def confidence_criterion_def position_criterion_def current_quality_criterion_def

theorem stability_gate_rate_criterion_witness:
  "stability_ratio (example_gate [False, False, False, True, True]) = 0.6 \<and>
   min_tracklet_frames (example_gate [False, False, False, True, True]) = 3 \<and>
   is_enhanced_stable_detection (example_gate [False, False, False, True, True]) [] = Inr True \<and>
   is_enhanced_stable_detection
     ((example_gate [False, True, False, True, True])\<lparr>min_tracklet_frames := 5\<rparr>) [] = Inr True \<and>
   is_enhanced_stable_detection
     ((example_gate [False, True, False, False, True])\<lparr>min_tracklet_frames := 5\<rparr>) [] = Inr False"
  using stability_gate_rate_criterion[of "example_gate [False, False, False, True, True]" "[]"]
        stability_gate_rate_criterion[of "(example_gate [False, True, False, True, True])\<lparr>min_tracklet_frames := 5\<rparr>" "[]"]
        stability_gate_rate_criterion[of "(example_gate [False, True, False, False, True])\<lparr>min_tracklet_frames := 5\<rparr>" "[]"]
  by (simp add: gate_eval)

text \<open>
  Claim C6 as stated fails on the gate as \<open>__init__\<close> configures it: after the samples
  \<open>T, T, T, F, F\<close> three of the five most recent are detected and the result is false; after
  \<open>F, F, F, T, T\<close> two of the five most recent are detected and the result is true.
\<close>

theorem three_of_five_counterexample:
  "stability_ratio (example_gate [True, True, True, False, False]) = 0.6 \<and>
   length (filter (\<lambda>b. b) (py_tail 5
      (ambulance_detection_history (example_gate [True, True, True, False, False])))) = 3 \<and>
   is_enhanced_stable_detection (example_gate [True, True, True, False, False]) [] = Inr False \<and>
   length (filter (\<lambda>b. b) (py_tail 5
      (ambulance_detection_history (example_gate [False, False, False, True, True])))) = 2 \<and>
   is_enhanced_stable_detection (example_gate [False, False, False, True, True]) [] = Inr True"
  by (simp add: gate_eval is_enhanced_stable_detection_def)

subsection \<open>The track table keeps its invariant\<close>

lemma keys_update_present:
  "k \<in> set (map fst al) \<Longrightarrow> map fst (AList.update k v al) = map fst al"
  by (simp add: update_keys)

lemma keys_update_fresh:
  "k \<notin> set (map fst al) \<Longrightarrow> map fst (AList.update k v al) = map fst al @ [k]"
  by (simp add: update_keys)

lemma map_of_Some_key: "map_of al k = Some v \<Longrightarrow> k \<in> set (map fst al)"
  by (metis map_of_eq_None_iff option.distinct(1) set_map)

lemma key_map_of_Some: "k \<in> set (map fst al) \<Longrightarrow> \<exists>v. map_of al k = Some v"
  by (metis map_of_eq_None_iff not_None_eq set_map)

lemma update_trajectory_fields:
  "next_id (update_trajectory s oid b) = next_id s"
  "objects (update_trajectory s oid b) = objects s"
  "disappeared (update_trajectory s oid b) = disappeared s"
  "map fst (trajectory_points (update_trajectory s oid b))
     = map fst (AList.update oid [] (trajectory_points s))"
  by (simp_all add: update_trajectory_def Let_def update_keys)

lemma register_fields:
  assumes "register s det = (oid, s')"
  shows "oid = next_id s" "next_id s' = next_id s + 1"
    "map fst (objects s') = (if next_id s \<in> set (map fst (objects s)) then map fst (objects s)
                             else map fst (objects s) @ [next_id s])"
    "map fst (disappeared s') = (if next_id s \<in> set (map fst (disappeared s)) then map fst (disappeared s)
                             else map fst (disappeared s) @ [next_id s])"
    "map fst (trajectory_points s') = (if next_id s \<in> set (map fst (trajectory_points s))
                             then map fst (trajectory_points s)
                             else map fst (trajectory_points s) @ [next_id s])"
proof -
  from assms have e: "oid = fst (register s det)" "s' = snd (register s det)" by simp_all
  show "oid = next_id s" unfolding e by (simp add: register_def Let_def)
  show "next_id s' = next_id s + 1"
    unfolding e by (simp add: register_def Let_def update_trajectory_def)
  show "map fst (objects s') = (if next_id s \<in> set (map fst (objects s)) then map fst (objects s)
                             else map fst (objects s) @ [next_id s])"
    unfolding e by (simp add: register_def Let_def update_trajectory_def update_keys)
  show "map fst (disappeared s') = (if next_id s \<in> set (map fst (disappeared s)) then map fst (disappeared s)
                             else map fst (disappeared s) @ [next_id s])"
    unfolding e by (simp add: register_def Let_def update_trajectory_def update_keys)
  show "map fst (trajectory_points s') = (if next_id s \<in> set (map fst (trajectory_points s))
                             then map fst (trajectory_points s)
                             else map fst (trajectory_points s) @ [next_id s])"
    unfolding e by (simp add: register_def Let_def update_trajectory_def update_keys)
qed

lemma inv_register:
  assumes inv: "tracker_inv s" and r: "register s det = (oid, s')"
  shows "tracker_inv s'"
proof -
  note f = register_fields[OF r]
  from inv have fresh: "next_id s \<notin> set (map fst (objects s))"
    by (auto simp: tracker_inv_def)
  from inv have eqs: "map fst (disappeared s) = map fst (objects s)"
    "map fst (trajectory_points s) = map fst (objects s)" by (simp_all add: tracker_inv_def)
  have k: "map fst (objects s') = map fst (objects s) @ [next_id s]"
    using f(3) fresh by simp
  have d: "map fst (disappeared s') = map fst (objects s) @ [next_id s]"
    using f(4) fresh eqs by simp
  have t: "map fst (trajectory_points s') = map fst (objects s) @ [next_id s]"
    using f(5) fresh eqs by simp
  have "sorted_wrt (<) (map fst (objects s) @ [next_id s])"
    using inv by (auto simp: tracker_inv_def sorted_wrt_append)
  moreover have "\<forall>k \<in> set (map fst (objects s) @ [next_id s]). k < next_id s'"
    using inv f(2) by (auto simp: tracker_inv_def)
  ultimately show ?thesis unfolding tracker_inv_def k d t by simp
qed

lemma deregister_fields:
  "next_id (deregister s oid) = next_id s"
  "map fst (objects (deregister s oid)) = removeAll oid (map fst (objects s))"
  "map fst (disappeared (deregister s oid)) = removeAll oid (map fst (disappeared s))"
  "map fst (trajectory_points (deregister s oid)) = removeAll oid (map fst (trajectory_points s))"
  by (simp_all add: deregister_def delete_keys)

lemma sorted_wrt_removeAll: "sorted_wrt P xs \<Longrightarrow> sorted_wrt P (removeAll x xs)"
  by (induction xs) auto

lemma inv_deregister: "tracker_inv s \<Longrightarrow> tracker_inv (deregister s oid)"
  unfolding tracker_inv_def deregister_fields
  by (auto intro: sorted_wrt_removeAll)

lemma mark_disappeared_total:
  assumes inv: "tracker_inv s" and mem: "oid \<in> set (map fst (objects s))"
  shows "\<exists>s'. mark_disappeared oid s = Inr s' \<and> tracker_inv s' \<and> next_id s' = next_id s \<and>
              (map fst (objects s') = map fst (objects s) \<or>
               map fst (objects s') = removeAll oid (map fst (objects s)))"
proof -
  from inv mem have "oid \<in> set (map fst (disappeared s))" by (simp add: tracker_inv_def)
  from key_map_of_Some[OF this] obtain n where n: "map_of (disappeared s) oid = Some n" by blast
  define s1 where "s1 = s\<lparr>disappeared := AList.update oid (n + 1) (disappeared s)\<rparr>"
  have k1: "map fst (disappeared s1) = map fst (disappeared s)"
    using map_of_Some_key[OF n] by (simp add: s1_def update_keys)
  have inv1: "tracker_inv s1"
    using inv k1 unfolding tracker_inv_def by (simp add: s1_def)
  have f1: "next_id s1 = next_id s" "objects s1 = objects s" "max_disappeared s1 = max_disappeared s"
    by (simp_all add: s1_def)
  have res: "mark_disappeared oid s = Inr (if n + 1 > max_disappeared s1 then deregister s1 oid else s1)"
    using n by (simp add: mark_disappeared_def s1_def Let_def)
  show ?thesis
  proof (cases "n + 1 > max_disappeared s1")
    case True
    then have "mark_disappeared oid s = Inr (deregister s1 oid)" using res by simp
    moreover have "tracker_inv (deregister s1 oid)" by (rule inv_deregister[OF inv1])
    ultimately show ?thesis using f1 by (simp add: deregister_fields)
  next
    case False
    then have "mark_disappeared oid s = Inr s1" using res by simp
    then show ?thesis using inv1 f1 by simp
  qed
qed

lemma match_track_total:
  assumes inv: "tracker_inv s" and mem: "oid \<in> set (map fst (objects s))"
  shows "\<exists>s' md' mo'. match_track dets cs (oid, c) (s, md, mo) = Inr (s', md', mo') \<and>
           tracker_inv s' \<and> next_id s' = next_id s \<and>
           map fst (objects s') = map fst (objects s)"
proof (cases "oid \<in> mo")
  case True
  then show ?thesis using inv by (simp add: match_track_def)
next
  case nm: False
  show ?thesis
  proof (cases "snd (best_match_loop (max_distance s) md c (List.enumerate 0 cs) (None, None))")
    case None
    then show ?thesis using inv nm by (simp add: match_track_def)
  next
    case (Some j)
    from key_map_of_Some[OF mem] obtain ob where ob: "map_of (objects s) oid = Some ob" by blast
    define sm where "sm = smooth_bbox s (obj_bbox ob) (bbox (dets ! j))"
    define ob' where "ob' = ob\<lparr>obj_bbox := sm,
        obj_class := (case class_name (dets ! j) of None \<Rightarrow> ''vehicle'' | Some c \<Rightarrow> c),
        obj_confidence := confidence (dets ! j)\<rparr>"
    define s2 where "s2 = s\<lparr>objects := AList.update oid ob' (objects s),
                            disappeared := AList.update oid 0 (disappeared s)\<rparr>"
    define s3 where "s3 = update_trajectory s2 oid sm"
    have res: "match_track dets cs (oid, c) (s, md, mo) = Inr (s3, insert j md, insert oid mo)"
      using nm Some ob by (simp add: match_track_def Let_def s3_def s2_def ob'_def sm_def)
    from inv mem have md: "oid \<in> set (map fst (disappeared s))"
      and mt: "oid \<in> set (map fst (trajectory_points s))" by (simp_all add: tracker_inv_def)
    have k: "map fst (objects s3) = map fst (objects s)"
      using mem by (simp add: s3_def s2_def update_trajectory_fields update_keys)
    have d: "map fst (disappeared s3) = map fst (disappeared s)"
      using md by (simp add: s3_def s2_def update_trajectory_fields update_keys)
    have "trajectory_points s2 = trajectory_points s" by (simp add: s2_def)
    then have t: "map fst (trajectory_points s3) = map fst (trajectory_points s)"
      using mt by (simp add: s3_def update_trajectory_fields update_keys)
    have n: "next_id s3 = next_id s" by (simp add: s3_def s2_def update_trajectory_fields)
    have "tracker_inv s3" using inv unfolding tracker_inv_def k d t n by simp
    with res k n show ?thesis by simp
  qed
qed

lemma match_loop_total:
  "tracker_inv s \<Longrightarrow> set (map fst entries) \<subseteq> set (map fst (objects s)) \<Longrightarrow>
   \<exists>s' md' mo'. for_each (match_track dets cs) entries (s, md, mo) = Inr (s', md', mo') \<and>
      tracker_inv s' \<and> next_id s' = next_id s \<and> map fst (objects s') = map fst (objects s)"
proof (induction entries arbitrary: s md mo)
  case Nil
  then show ?case by simp
next
  case (Cons e entries)
  obtain oid c where e: "e = (oid, c)" by (cases e)
  from Cons.prems(2) e have mem: "oid \<in> set (map fst (objects s))" by simp
  from match_track_total[OF Cons.prems(1) mem, of dets cs c md mo]
  obtain s1 md1 mo1 where m: "match_track dets cs (oid, c) (s, md, mo) = Inr (s1, md1, mo1)"
    and i1: "tracker_inv s1" and n1: "next_id s1 = next_id s"
    and k1: "map fst (objects s1) = map fst (objects s)" by blast
  from Cons.prems(2) k1 have sub: "set (map fst entries) \<subseteq> set (map fst (objects s1))" by simp
  from Cons.IH[OF i1 sub, of md1 mo1]
  obtain s' md' mo' where r: "for_each (match_track dets cs) entries (s1, md1, mo1) = Inr (s', md', mo')"
    and i': "tracker_inv s'" and n': "next_id s' = next_id s1"
    and k': "map fst (objects s') = map fst (objects s1)" by blast
  have "for_each (match_track dets cs) (e # entries) (s, md, mo) = Inr (s', md', mo')"
    using m r e by simp
  with i' n' n1 k' k1 show ?case by simp
qed

lemma mark_loop_total:
  "tracker_inv s \<Longrightarrow> distinct xs \<Longrightarrow> set xs \<subseteq> set (map fst (objects s)) \<Longrightarrow>
   \<exists>s'. for_each (\<lambda>obj_id s. if obj_id \<notin> mo then mark_disappeared obj_id s else Inr s) xs s = Inr s' \<and>
      tracker_inv s' \<and> next_id s' = next_id s"
proof (induction xs arbitrary: s)
  case Nil
  then show ?case by simp
next
  case (Cons x xs)
  from Cons.prems have mem: "x \<in> set (map fst (objects s))" and nx: "x \<notin> set xs"
    and dx: "distinct xs" and sub: "set xs \<subseteq> set (map fst (objects s))" by simp_all
  have "\<exists>s1. (if x \<notin> mo then mark_disappeared x s else Inr s) = Inr s1 \<and> tracker_inv s1 \<and>
          next_id s1 = next_id s \<and> set xs \<subseteq> set (map fst (objects s1))"
  proof (cases "x \<in> mo")
    case True
    then show ?thesis using Cons.prems(1) sub by simp
  next
    case False
    from mark_disappeared_total[OF Cons.prems(1) mem]
    obtain s1 where m: "mark_disappeared x s = Inr s1" and i1: "tracker_inv s1"
      and n1: "next_id s1 = next_id s"
      and k1: "map fst (objects s1) = map fst (objects s) \<or>
               map fst (objects s1) = removeAll x (map fst (objects s))" by blast
    from k1 have "set (map fst (objects s)) - {x} \<subseteq> set (map fst (objects s1))"
    proof
      assume a: "map fst (objects s1) = map fst (objects s)"
      show ?thesis unfolding a by blast
    next
      assume a: "map fst (objects s1) = removeAll x (map fst (objects s))"
      show ?thesis unfolding a set_removeAll by blast
    qed
    with sub nx have "set xs \<subseteq> set (map fst (objects s1))" by blast
    with m i1 n1 False show ?thesis by simp
  qed
  then obtain s1 where b: "(if x \<notin> mo then mark_disappeared x s else Inr s) = Inr s1"
    and i1: "tracker_inv s1" and n1: "next_id s1 = next_id s"
    and sub1: "set xs \<subseteq> set (map fst (objects s1))" by blast
  from Cons.IH[OF i1 dx sub1]
  obtain s' where r: "for_each (\<lambda>obj_id s. if obj_id \<notin> mo then mark_disappeared obj_id s else Inr s) xs s1 = Inr s'"
    and i': "tracker_inv s'" and n': "next_id s' = next_id s1" by blast
  have "for_each (\<lambda>obj_id s. if obj_id \<notin> mo then mark_disappeared obj_id s else Inr s) (x # xs) s = Inr s'"
    using b r by simp
  with i' n' n1 show ?case by simp
qed

lemma register_unmatched_inv:
  "tracker_inv s \<Longrightarrow> tracker_inv (fst (register_unmatched m xs (s, ids)))"
proof (induction xs arbitrary: s ids)
  case Nil
  then show ?case by simp
next
  case (Cons x xs)
  obtain i det where x: "x = (i, det)" by (cases x)
  show ?case
  proof (cases "i \<in> m")
    case True
    then show ?thesis using Cons x by simp
  next
    case False
    obtain oid s1 where r: "register s det = (oid, s1)" by (cases "register s det")
    from inv_register[OF Cons.prems r] have "tracker_inv s1" .
    from Cons.IH[OF this, of "ids @ [oid]"] show ?thesis using x False r by simp
  qed
qed

lemma register_unmatched_ids:
  "register_unmatched m xs (s, ids) = (s', ids') \<Longrightarrow>
     next_id s \<le> next_id s' \<and> ids' = ids @ [next_id s .. next_id s' - 1]"
proof (induction xs arbitrary: s ids)
  case Nil
  then show ?case by simp
next
  case (Cons x xs)
  obtain i det where x: "x = (i, det)" by (cases x)
  show ?case
  proof (cases "i \<in> m")
    case True
    with Cons.prems x have "register_unmatched m xs (s, ids) = (s', ids')" by simp
    from Cons.IH[OF this] show ?thesis .
  next
    case False
    obtain oid s1 where r: "register s det = (oid, s1)" by (cases "register s det")
    note f = register_fields(1,2)[OF r]
    from Cons.prems x False r have "register_unmatched m xs (s1, ids @ [oid]) = (s', ids')" by simp
    from Cons.IH[OF this] have le: "next_id s1 \<le> next_id s'"
      and e: "ids' = (ids @ [oid]) @ [next_id s1 .. next_id s' - 1]" by simp_all
    have "[next_id s .. next_id s' - 1] = next_id s # [next_id s + 1 .. next_id s' - 1]"
      using le f(2) by (simp add: upto_rec1)
    with e f le show ?thesis by simp
  qed
qed

lemma next_id_mark_disappeared: "mark_disappeared oid s = Inr s' \<Longrightarrow> next_id s' = next_id s"
  by (auto simp: mark_disappeared_def deregister_def Let_def split: option.splits if_splits)

lemma next_id_match_track:
  "match_track dets cs e (s, md, mo) = Inr (s', md', mo') \<Longrightarrow> next_id s' = next_id s"
  by (auto simp: match_track_def update_trajectory_def Let_def
           split: option.splits if_splits prod.splits)

lemma strict_sorted_distinct: "sorted_wrt (<) (xs :: int list) \<Longrightarrow> distinct xs"
  by (simp add: strict_sorted_iff)

lemma for_each_mark_all:
  "for_each mark_disappeared xs s
     = for_each (\<lambda>obj_id s. if obj_id \<notin> {} then mark_disappeared obj_id s else Inr s) xs s"
  by simp

lemma keys_object_entries: "map fst (object_entries s) = map fst (objects s)"
  by (simp add: object_entries_def comp_def case_prod_beta)

lemma update_reg_total:
  assumes inv: "tracker_inv s"
  shows "\<exists>s' ids. update_reg s dets = Inr (s', ids) \<and> tracker_inv s'"
proof (cases "length dets = 0")
  case True
  from inv have k: "map fst (disappeared s) = map fst (objects s)"
    and d: "distinct (map fst (objects s))"
    by (simp_all add: tracker_inv_def strict_sorted_distinct)
  from mark_loop_total[OF inv d subset_refl, of "{}"]
  obtain s' where "for_each mark_disappeared (map fst (objects s)) s = Inr s'" "tracker_inv s'"
    unfolding for_each_mark_all by blast
  then show ?thesis using True k by (simp add: update_reg_def)
next
  case ne: False
  show ?thesis
  proof (cases "length (objects s) = 0")
    case True
    obtain s' ids where r: "register_unmatched {} (List.enumerate 0 dets) (s, []) = (s', ids)"
      by (cases "register_unmatched {} (List.enumerate 0 dets) (s, [])")
    from register_unmatched_inv[OF inv, of "{}" "List.enumerate 0 dets" "[]"] r
    have "tracker_inv s'" by simp
    with r ne True show ?thesis by (simp add: update_reg_def)
  next
    case False
    have sub: "set (map fst (object_entries s)) \<subseteq> set (map fst (objects s))"
      unfolding keys_object_entries by (rule subset_refl)
    from match_loop_total[OF inv sub, of dets "map (\<lambda>d. get_center (bbox d)) dets" "{}" "{}"]
    obtain s1 md mo where m: "match_phase (object_entries s) dets s = Inr (s1, md, mo)"
      and i1: "tracker_inv s1" unfolding match_phase_def by blast
    obtain s2 ids where r: "register_unmatched md (List.enumerate 0 dets) (s1, []) = (s2, ids)"
      by (cases "register_unmatched md (List.enumerate 0 dets) (s1, [])")
    from register_unmatched_inv[OF i1, of md "List.enumerate 0 dets" "[]"] r
    have i2: "tracker_inv s2" by simp
    then have d2: "distinct (map fst (objects s2))"
      by (simp add: tracker_inv_def strict_sorted_distinct)
    from mark_loop_total[OF i2 d2 subset_refl, of mo]
    obtain s3 where l: "for_each (\<lambda>obj_id s. if obj_id \<notin> mo then mark_disappeared obj_id s else Inr s)
                          (map fst (objects s2)) s2 = Inr s3" and i3: "tracker_inv s3" by blast
    have "finish_update dets (s1, md, mo) = Inr (s3, ids)"
      using r l by (simp add: finish_update_def)
    with m ne False i3 show ?thesis by (simp add: update_reg_def)
  qed
qed

lemma update_total:
  assumes "tracker_inv s"
  shows "\<exists>s'. update s dets = Inr s' \<and> tracker_inv s'"
  using update_reg_total[OF assms, of dets] by (auto simp: update_def)

lemma init_inv: "tracker_inv (init_tracker a b)"
  by (simp add: tracker_inv_def init_tracker_def)

lemma reachable_inv: "reachable s \<Longrightarrow> tracker_inv s"
proof (induction rule: reachable.induct)
  case (reach_init a b)
  show ?case by (rule init_inv)
next
  case (reach_update s dets s')
  from update_total[OF reach_update.IH, of dets] reach_update.hyps(2)
  show ?case by auto
next
  case (reach_zone s oid r s')
  from czc_cases[OF reach_zone.hyps(2)] reach_zone.IH
  show ?case by (simp add: tracker_inv_def)
next
  case (reach_line s oid l r s')
  from clc_cases[OF reach_line.hyps(2)] reach_line.IH
  show ?case by (simp add: tracker_inv_def)
qed

lemma next_id_mark_loop:
  assumes "for_each (\<lambda>obj_id s. if obj_id \<notin> mo then mark_disappeared obj_id s else Inr s) xs s = Inr s'"
  shows "next_id s' = next_id s"
proof (rule for_each_preserves[where P="\<lambda>a. next_id a = next_id s", OF _ assms])
  fix x a a'
  assume "(if x \<notin> mo then mark_disappeared x a else Inr a) = Inr a'" and "next_id a = next_id s"
  then show "next_id a' = next_id s"
    by (auto split: if_splits dest: next_id_mark_disappeared)
qed simp

lemma next_id_match_phase:
  assumes "match_phase entries dets s = Inr (s', md, mo)"
  shows "next_id s' = next_id s"
proof -
  have "next_id (fst (s', md, mo)) = next_id s"
  proof (rule for_each_preserves[where P="\<lambda>a. next_id (fst a) = next_id s"
            and a="(s, {}, {})" and xs=entries
            and body="match_track dets (map (\<lambda>d. get_center (bbox d)) dets)"])
    fix x a a'
    assume b: "match_track dets (map (\<lambda>d. get_center (bbox d)) dets) x a = Inr a'"
      and p: "next_id (fst a) = next_id s"
    obtain s1 md1 mo1 where a: "a = (s1, md1, mo1)" by (cases a)
    obtain s2 md2 mo2 where a': "a' = (s2, md2, mo2)" by (cases a')
    from next_id_match_track[OF b[unfolded a a']] p a a'
    show "next_id (fst a') = next_id s" by simp
  next
    show "for_each (match_track dets (map (\<lambda>d. get_center (bbox d)) dets)) entries (s, {}, {})
            = Inr (s', md, mo)"
      using assms by (simp add: match_phase_def)
  qed simp
  then show ?thesis by simp
qed

lemma update_reg_ids:
  assumes "update_reg s dets = Inr (s', ids)"
  shows "next_id s \<le> next_id s' \<and> ids = [next_id s .. next_id s' - 1]"
proof (cases "length dets = 0")
  case True
  with assms have l: "for_each mark_disappeared (map fst (disappeared s)) s = Inr s'" and e: "ids = []"
    by (auto simp: update_reg_def split: sum.splits)
  from next_id_mark_loop[OF l[unfolded for_each_mark_all]] e show ?thesis by simp
next
  case ne: False
  show ?thesis
  proof (cases "length (objects s) = 0")
    case True
    with assms ne have "register_unmatched {} (List.enumerate 0 dets) (s, []) = (s', ids)"
      by (auto simp: update_reg_def)
    from register_unmatched_ids[OF this] show ?thesis by simp
  next
    case False
    with assms ne obtain st where m: "match_phase (object_entries s) dets s = Inr st"
      and f: "finish_update dets st = Inr (s', ids)"
      by (auto simp: update_reg_def split: sum.splits)
    obtain s1 md mo where st: "st = (s1, md, mo)" by (cases st)
    obtain s2 ids2 where r: "register_unmatched md (List.enumerate 0 dets) (s1, []) = (s2, ids2)"
      by (cases "register_unmatched md (List.enumerate 0 dets) (s1, [])")
    with f st have l: "for_each (\<lambda>obj_id s. if obj_id \<notin> mo then mark_disappeared obj_id s else Inr s)
       (map fst (objects s2)) s2 = Inr s'" and e: "ids = ids2"
      by (auto simp: finish_update_def split: sum.splits)
    from next_id_match_phase[OF m[unfolded st]] register_unmatched_ids[OF r] next_id_mark_loop[OF l] e
    show ?thesis by simp
  qed
qed

lemma upto_append: "a \<le> b \<Longrightarrow> b \<le> c \<Longrightarrow> [a .. b - 1] @ [b .. c - 1] = [a .. c - (1::int)]"
proof (cases "a = b")
  case True
  then show ?thesis by simp
next
  case False
  assume "a \<le> b" "b \<le> c"
  with False have "a \<le> b - 1" "b - 1 \<le> c - 1" by simp_all
  from upto_split2[OF this] show ?thesis by simp
qed

lemma update_frames_reg_ids:
  "update_frames_reg s frames = Inr (s', ids) \<Longrightarrow>
     next_id s \<le> next_id s' \<and> ids = [next_id s .. next_id s' - 1]"
proof (induction frames arbitrary: s ids)
  case Nil
  then show ?case by simp
next
  case (Cons f fs)
  from Cons.prems obtain s1 ids1 ids2 where u: "update_reg s f = Inr (s1, ids1)"
    and r: "update_frames_reg s1 fs = Inr (s', ids2)" and e: "ids = ids1 @ ids2"
    by (auto split: sum.splits prod.splits)
  from update_reg_ids[OF u] Cons.IH[OF r] e upto_append[of "next_id s" "next_id s1" "next_id s'"]
  show ?case by simp
qed

subsection \<open>Recorded entry positions belong to trajectories of at least five points\<close>

lemma deque_append_length: "length (deque_append n xs x) = min n (length xs + 1)"
  by (simp add: deque_append_def)

lemma zone_update_trajectory:
  assumes z: "zone_inv s"
    and ok: "map_of (zone_entry_positions s) oid = None \<or> (\<exists>pts. map_of (trajectory_points s) oid = Some pts)"
  shows "zone_inv (update_trajectory s oid b)"
proof -
  define pts0 where "pts0 = (case map_of (trajectory_points s) oid of None \<Rightarrow> [] | Some p \<Rightarrow> p)"
  define new where "new = deque_append (max_trajectory_length s) pts0 (get_center b)"
  have u: "update_trajectory s oid b
             = s\<lparr>trajectory_points := AList.update oid new (trajectory_points s)\<rparr>"
    by (simp add: update_trajectory_def Let_def new_def pts0_def)
  have ln: "map_of (zone_entry_positions s) oid \<noteq> None \<Longrightarrow> 5 \<le> length new"
  proof -
    assume e: "map_of (zone_entry_positions s) oid \<noteq> None"
    with ok obtain pts where p: "map_of (trajectory_points s) oid = Some pts" by blast
    from e obtain y where "map_of (zone_entry_positions s) oid = Some y" by blast
    with z p have "5 \<le> length pts" unfolding zone_inv_def by blast
    moreover have "pts0 = pts" using p by (simp add: pts0_def)
    moreover have "max_trajectory_length s = 20" using z by (simp add: zone_inv_def)
    ultimately show "5 \<le> length new" by (simp add: new_def deque_append_length)
  qed
  show ?thesis
    unfolding u zone_inv_def
  proof (intro conjI allI impI)
    show "max_trajectory_length (s\<lparr>trajectory_points := AList.update oid new (trajectory_points s)\<rparr>) = 20"
      using z by (simp add: zone_inv_def)
    show "min_movement_to_count (s\<lparr>trajectory_points := AList.update oid new (trajectory_points s)\<rparr>) = 50"
      using z by (simp add: zone_inv_def)
  next
    fix o' e
    assume "map_of (zone_entry_positions (s\<lparr>trajectory_points := AList.update oid new (trajectory_points s)\<rparr>)) o' = Some e"
    then have e: "map_of (zone_entry_positions s) o' = Some e" by simp
    with z show "o' < next_id (s\<lparr>trajectory_points := AList.update oid new (trajectory_points s)\<rparr>)"
      by (simp add: zone_inv_def)
    fix pts
    assume "map_of (trajectory_points (s\<lparr>trajectory_points := AList.update oid new (trajectory_points s)\<rparr>)) o' = Some pts"
    then have p: "((map_of (trajectory_points s))(oid \<mapsto> new)) o' = Some pts"
      by (simp add: update_conv')
    show "5 \<le> length pts"
    proof (cases "o' = oid")
      case True
      with p have "pts = new" by simp
      with ln e True show ?thesis by simp
    next
      case False
      with p have "map_of (trajectory_points s) o' = Some pts" by simp
      with z e show ?thesis unfolding zone_inv_def by blast
    qed
  qed
qed

lemma zone_inv_cong:
  assumes "zone_inv s"
    and "max_trajectory_length s' = max_trajectory_length s"
    and "min_movement_to_count s' = min_movement_to_count s"
    and "zone_entry_positions s' = zone_entry_positions s"
    and "next_id s \<le> next_id s'"
    and "\<And>oid pts. oid < next_id s \<Longrightarrow> map_of (trajectory_points s') oid = Some pts
           \<Longrightarrow> map_of (trajectory_points s) oid = Some pts"
  shows "zone_inv s'"
  using assms unfolding zone_inv_def by (metis order_less_le_trans)

lemma zone_register:
  assumes z: "zone_inv s" and r: "register s det = (oid, s')"
  shows "zone_inv s'"
proof -
  define s4 where "s4 = s\<lparr>next_id := next_id s + 1,
      objects := AList.update (next_id s)
                  \<lparr> obj_bbox = bbox det,
                    obj_class = (case class_name det of None \<Rightarrow> ''vehicle'' | Some c \<Rightarrow> c),
                    obj_confidence = confidence det,
                    obj_history = [bbox det] \<rparr> (objects s),
      disappeared := AList.update (next_id s) 0 (disappeared s),
      trajectory_points := AList.update (next_id s) [] (trajectory_points s)\<rparr>"
  have s': "s' = update_trajectory s4 (next_id s) (bbox det)"
    using r by (auto simp add: register_def Let_def s4_def)
  have z4: "zone_inv s4"
  proof (rule zone_inv_cong[OF z])
    fix oid pts assume "oid < next_id s" "map_of (trajectory_points s4) oid = Some pts"
    then show "map_of (trajectory_points s) oid = Some pts"
      by (simp add: s4_def update_conv')
  qed (simp_all add: s4_def)
  have "map_of (zone_entry_positions s4) (next_id s) = None"
  proof (rule ccontr)
    assume "map_of (zone_entry_positions s4) (next_id s) \<noteq> None"
    then obtain e where "map_of (zone_entry_positions s) (next_id s) = Some e"
      by (auto simp: s4_def)
    with z have "next_id s < next_id s" unfolding zone_inv_def by blast
    then show False by simp
  qed
  from zone_update_trajectory[OF z4 disjI1[OF this]] show ?thesis unfolding s' .
qed

lemma zone_deregister: "zone_inv s \<Longrightarrow> zone_inv (deregister s oid)"
proof (erule zone_inv_cong)
  fix o' pts assume "map_of (trajectory_points (deregister s oid)) o' = Some pts"
  then show "map_of (trajectory_points s) o' = Some pts"
    by (cases "o' = oid") (simp_all add: deregister_def delete_conv')
qed (simp_all add: deregister_def)

lemma zone_mark_disappeared: "mark_disappeared oid s = Inr s' \<Longrightarrow> zone_inv s \<Longrightarrow> zone_inv s'"
proof -
  assume m: "mark_disappeared oid s = Inr s'" and z: "zone_inv s"
  from m obtain n where n: "map_of (disappeared s) oid = Some n"
    by (auto simp: mark_disappeared_def split: option.splits)
  define s1 where "s1 = s\<lparr>disappeared := AList.update oid (n + 1) (disappeared s)\<rparr>"
  have z1: "zone_inv s1" by (rule zone_inv_cong[OF z]) (simp_all add: s1_def)
  from m n have "s' = (if n + 1 > max_disappeared s1 then deregister s1 oid else s1)"
    by (auto simp add: mark_disappeared_def Let_def s1_def)
  then show "zone_inv s'" using z1 zone_deregister[OF z1, of oid] by simp
qed

lemma zone_match_track:
  assumes m: "match_track dets cs e (s, md, mo) = Inr (s', md', mo')"
    and i: "tracker_inv s" and z: "zone_inv s"
  shows "zone_inv s' \<and> tracker_inv s'"
proof -
  obtain oid c where e: "e = (oid, c)" by (cases e)
  show ?thesis
  proof (cases "s' = s")
    case True
    then show ?thesis using i z by simp
  next
    case False
    with m e obtain j ob where j: "snd (best_match_loop (max_distance s) md c (List.enumerate 0 cs) (None, None)) = Some j"
      and ob: "map_of (objects s) oid = Some ob" and nm: "oid \<notin> mo"
      by (auto simp: match_track_def split: if_splits option.splits)
    from map_of_Some_key[OF ob] have mem: "oid \<in> set (map fst (objects s))" .
    from match_track_total[OF i mem, of dets cs c md mo] m e
    have i': "tracker_inv s'" by auto
    define sm where "sm = smooth_bbox s (obj_bbox ob) (bbox (dets ! j))"
    define s2 where "s2 = s\<lparr>objects := AList.update oid
         (ob\<lparr>obj_bbox := sm,
             obj_class := (case class_name (dets ! j) of None \<Rightarrow> ''vehicle'' | Some c \<Rightarrow> c),
             obj_confidence := confidence (dets ! j)\<rparr>) (objects s),
       disappeared := AList.update oid 0 (disappeared s)\<rparr>"
    have s': "s' = update_trajectory s2 oid sm"
      using m e j ob nm by (simp add: match_track_def Let_def s2_def sm_def)
    have z2: "zone_inv s2" by (rule zone_inv_cong[OF z]) (simp_all add: s2_def)
    from i mem have "oid \<in> set (map fst (trajectory_points s))" by (simp add: tracker_inv_def)
    from key_map_of_Some[OF this] have "\<exists>pts. map_of (trajectory_points s2) oid = Some pts"
      by (simp add: s2_def)
    from zone_update_trajectory[OF z2 disjI2[OF this]] i' show ?thesis unfolding s' by simp
  qed
qed

lemma zone_match_phase:
  assumes "match_phase entries dets s = Inr (s', md, mo)" and "tracker_inv s" and "zone_inv s"
  shows "zone_inv s'"
proof -
  have "zone_inv (fst (s', md, mo)) \<and> tracker_inv (fst (s', md, mo))"
  proof (rule for_each_preserves[where P="\<lambda>a. zone_inv (fst a) \<and> tracker_inv (fst a)"
            and a="(s, {}, {})" and xs=entries
            and body="match_track dets (map (\<lambda>d. get_center (bbox d)) dets)"])
    fix x a a'
    assume b: "match_track dets (map (\<lambda>d. get_center (bbox d)) dets) x a = Inr a'"
      and p: "zone_inv (fst a) \<and> tracker_inv (fst a)"
    obtain s1 md1 mo1 where a: "a = (s1, md1, mo1)" by (cases a)
    obtain s2 md2 mo2 where a': "a' = (s2, md2, mo2)" by (cases a')
    from zone_match_track[OF b[unfolded a a']] p a a'
    show "zone_inv (fst a') \<and> tracker_inv (fst a')" by simp
  next
    show "for_each (match_track dets (map (\<lambda>d. get_center (bbox d)) dets)) entries (s, {}, {})
            = Inr (s', md, mo)"
      using assms(1) by (simp add: match_phase_def)
  next
    show "zone_inv (fst (s, {}, {})) \<and> tracker_inv (fst (s, {}, {}))" using assms by simp
  qed
  then show ?thesis by simp
qed

lemma zone_register_unmatched:
  "zone_inv s \<Longrightarrow> zone_inv (fst (register_unmatched m xs (s, ids)))"
proof (induction xs arbitrary: s ids)
  case Nil
  then show ?case by simp
next
  case (Cons x xs)
  obtain i det where x: "x = (i, det)" by (cases x)
  show ?case
  proof (cases "i \<in> m")
    case True
    then show ?thesis using Cons x by simp
  next
    case False
    obtain oid s1 where r: "register s det = (oid, s1)" by (cases "register s det")
    from zone_register[OF Cons.prems r] have "zone_inv s1" .
    from Cons.IH[OF this, of "ids @ [oid]"] show ?thesis using x False r by simp
  qed
qed

lemma zone_mark_loop:
  assumes "for_each (\<lambda>obj_id s. if obj_id \<notin> mo then mark_disappeared obj_id s else Inr s) xs s = Inr s'"
    and "zone_inv s"
  shows "zone_inv s'"
proof (rule for_each_preserves[where P=zone_inv, OF _ assms])
  fix x a a'
  assume "(if x \<notin> mo then mark_disappeared x a else Inr a) = Inr a'" and "zone_inv a"
  then show "zone_inv a'"
    by (auto split: if_splits intro: zone_mark_disappeared)
qed

lemma zone_update_reg:
  assumes u: "update_reg s dets = Inr (s', ids)" and i: "tracker_inv s" and z: "zone_inv s"
  shows "zone_inv s'"
proof (cases "length dets = 0")
  case True
  with u have "for_each mark_disappeared (map fst (disappeared s)) s = Inr s'"
    by (auto simp: update_reg_def split: sum.splits)
  from zone_mark_loop[OF this[unfolded for_each_mark_all] z] show ?thesis .
next
  case ne: False
  show ?thesis
  proof (cases "length (objects s) = 0")
    case True
    with u ne have "register_unmatched {} (List.enumerate 0 dets) (s, []) = (s', ids)"
      by (auto simp: update_reg_def)
    with zone_register_unmatched[OF z, of "{}" "List.enumerate 0 dets" "[]"] show ?thesis by simp
  next
    case False
    with u ne obtain st where m: "match_phase (object_entries s) dets s = Inr st"
      and f: "finish_update dets st = Inr (s', ids)"
      by (auto simp: update_reg_def split: sum.splits)
    obtain s1 md mo where st: "st = (s1, md, mo)" by (cases st)
    from zone_match_phase[OF m[unfolded st] i z] have z1: "zone_inv s1" .
    obtain s2 ids2 where r: "register_unmatched md (List.enumerate 0 dets) (s1, []) = (s2, ids2)"
      by (cases "register_unmatched md (List.enumerate 0 dets) (s1, [])")
    with zone_register_unmatched[OF z1, of md "List.enumerate 0 dets" "[]"]
    have z2: "zone_inv s2" by simp
    from f st r have "for_each (\<lambda>obj_id s. if obj_id \<notin> mo then mark_disappeared obj_id s else Inr s)
       (map fst (objects s2)) s2 = Inr s'"
      by (auto simp: finish_update_def split: sum.splits)
    from zone_mark_loop[OF this z2] show ?thesis .
  qed
qed

lemma czc_settings:
  "check_zone_counting s oid = (r, s') \<Longrightarrow>
     max_trajectory_length s' = max_trajectory_length s \<and>
     min_movement_to_count s' = min_movement_to_count s \<and>
     (zone_entry_positions s' = zone_entry_positions s \<or>
      (\<exists>pts. map_of (trajectory_points s) oid = Some pts \<and> 5 \<le> length pts \<and>
         zone_entry_positions s' = AList.update oid (snd (pts ! 0)) (zone_entry_positions s)))"
  by (auto simp: check_zone_counting_def Let_def split: if_splits option.splits)

lemma clc_settings:
  "check_line_crossing s oid l = (r, s') \<Longrightarrow>
     max_trajectory_length s' = max_trajectory_length s \<and>
     min_movement_to_count s' = min_movement_to_count s \<and>
     zone_entry_positions s' = zone_entry_positions s"
  by (auto simp: check_line_crossing_def Let_def split: if_splits option.splits)

lemma zone_check_zone_counting:
  assumes c: "check_zone_counting s oid = (r, s')" and i: "tracker_inv s" and z: "zone_inv s"
  shows "zone_inv s'"
proof -
  note f = czc_cases[OF c]
  note g = czc_settings[OF c]
  from f have t: "trajectory_points s' = trajectory_points s" and n: "next_id s' = next_id s"
    by simp_all
  from g have c1: "max_trajectory_length s' = 20" "min_movement_to_count s' = 50"
    using z by (simp_all add: zone_inv_def)
  from g have "zone_entry_positions s' = zone_entry_positions s \<or>
      (\<exists>pts. map_of (trajectory_points s) oid = Some pts \<and> 5 \<le> length pts \<and>
         zone_entry_positions s' = AList.update oid (snd (pts ! 0)) (zone_entry_positions s))"
    by blast
  then show ?thesis
  proof
    assume e: "zone_entry_positions s' = zone_entry_positions s"
    show ?thesis using z unfolding zone_inv_def e t n c1 by simp
  next
    assume "\<exists>pts. map_of (trajectory_points s) oid = Some pts \<and> 5 \<le> length pts \<and>
         zone_entry_positions s' = AList.update oid (snd (pts ! 0)) (zone_entry_positions s)"
    then obtain pts where p: "map_of (trajectory_points s) oid = Some pts" and l: "5 \<le> length pts"
      and e: "zone_entry_positions s' = AList.update oid (snd (pts ! 0)) (zone_entry_positions s)"
      by blast
    from i have k: "map fst (trajectory_points s) = map fst (objects s)"
      unfolding tracker_inv_def by blast
    from map_of_Some_key[OF p] have "oid \<in> set (map fst (objects s))" unfolding k .
    with i have lt: "oid < next_id s" unfolding tracker_inv_def by blast
    show ?thesis unfolding zone_inv_def t n
    proof (intro conjI allI impI)
      show "max_trajectory_length s' = 20" "min_movement_to_count s' = 50" by (rule c1)+
    next
      fix o' y assume a: "map_of (zone_entry_positions s') o' = Some y"
      have old: "o' \<noteq> oid \<Longrightarrow> map_of (zone_entry_positions s) o' = Some y"
        using a unfolding e by (simp add: update_conv')
      show "o' < next_id s"
      proof (cases "o' = oid")
        case True
        then show ?thesis using lt by simp
      next
        case False
        from old[OF False] z show ?thesis unfolding zone_inv_def by blast
      qed
      fix q assume b: "map_of (trajectory_points s) o' = Some q"
      show "5 \<le> length q"
      proof (cases "o' = oid")
        case True
        with b p l show ?thesis by simp
      next
        case False
        from old[OF False] z b show ?thesis unfolding zone_inv_def by blast
      qed
    qed
  qed
qed

lemma zone_check_line_crossing:
  assumes c: "check_line_crossing s oid l = (r, s')" and z: "zone_inv s"
  shows "zone_inv s'"
proof -
  from clc_cases[OF c] have t: "trajectory_points s' = trajectory_points s"
    and n: "next_id s' = next_id s" by simp_all
  from clc_settings[OF c] have g: "max_trajectory_length s' = max_trajectory_length s"
    "min_movement_to_count s' = min_movement_to_count s"
    "zone_entry_positions s' = zone_entry_positions s" by simp_all
  show ?thesis using z unfolding zone_inv_def t n g .
qed

lemma reachable_zone_inv: "reachable s \<Longrightarrow> zone_inv s"
proof (induction rule: reachable.induct)
  case (reach_init a b)
  show ?case by (simp add: zone_inv_def init_tracker_def)
next
  case (reach_update s dets s')
  from reach_update.hyps(2) obtain ids where "update_reg s dets = Inr (s', ids)"
    by (auto simp: update_def split: sum.splits)
  from zone_update_reg[OF this reachable_inv[OF reach_update.hyps(1)] reach_update.IH]
  show ?case .
next
  case (reach_zone s oid r s')
  from zone_check_zone_counting[OF reach_zone.hyps(2) reachable_inv[OF reach_zone.hyps(1)] reach_zone.IH]
  show ?case .
next
  case (reach_line s oid l r s')
  from zone_check_line_crossing[OF reach_line.hyps(2) reach_line.IH]
  show ?case .
qed

lemma reachable_update_projr: "reachable s \<Longrightarrow> reachable (projr (update s dets))"
proof -
  assume r: "reachable s"
  from update_total[OF reachable_inv[OF r], of dets] obtain s' where u: "update s dets = Inr s'"
    by blast
  from reach_update[OF r u] u show ?thesis by simp
qed

lemma reachable_update_frames_projr: "reachable s \<Longrightarrow> reachable (projr (update_frames s fs))"
proof (induction fs arbitrary: s)
  case Nil
  then show ?case by simp
next
  case (Cons f fs)
  from update_total[OF reachable_inv[OF Cons.prems], of f] obtain s' where u: "update s f = Inr s'"
    by blast
  from Cons.IH[OF reach_update[OF Cons.prems u]] u show ?case by simp
qed

lemma reachable_check_zone_snd: "reachable s \<Longrightarrow> reachable (snd (check_zone_counting s oid))"
  by (rule reach_zone[where r="fst (check_zone_counting s oid)" and object_id=oid]) simp_all


lemmas example_dets = example_detection_def example_det_a_def example_det_far_def init_tracker_def

text \<open>
  Claim C7. In every tracker state that the public operations can reach, the ids that the
  matching step of \<open>update\<close> iterates (\<open>list(self.objects.keys())\<close>, in dict order) are strictly
  increasing; so the greedy matching, and with it the whole \<open>update\<close>, equals the reference
  that takes the tracks in ascending id order.
\<close>

theorem matching_iterates_ascending_ids:
  "reachable s \<longrightarrow>
     sorted_wrt (<) (object_ids s) \<and>
     map fst (object_entries s) = object_ids s \<and>
     match_phase (object_entries s) detections s = match_phase_ascending detections s \<and>
     update s detections = update_ascending s detections"
proof
  assume r: "reachable s"
  from reachable_inv[OF r] have so: "sorted_wrt (<) (map fst (objects s))"
    by (simp add: tracker_inv_def)
  have k: "map fst (object_entries s) = object_ids s"
    by (simp add: keys_object_entries object_ids_def)
  have "sorted (map fst (object_entries s))"
    unfolding keys_object_entries by (rule strict_sorted_imp_sorted[OF so])
  from sort_key_id_if_sorted[OF this]
  have sk: "sort_key fst (object_entries s) = object_entries s" .
  have m: "match_phase (object_entries s) detections s = match_phase_ascending detections s"
    by (simp add: match_phase_ascending_def sk)
  have u: "update s detections = update_ascending s detections"
    unfolding update_def update_reg_def update_ascending_def m[symmetric]
    by (auto split: sum.splits prod.splits)
  show "sorted_wrt (<) (object_ids s) \<and>
     map fst (object_entries s) = object_ids s \<and>
     match_phase (object_entries s) detections s = match_phase_ascending detections s \<and>
     update s detections = update_ascending s detections"
    using so k m u by (simp add: object_ids_def)
qed

lemma example_two_tracks_run:
  "update (init_tracker 30 100) [example_det_a, example_det_far] = Inr example_two_tracks"
  by (simp add: example_two_tracks_def tracker_eval example_dets)

lemma example_two_tracks_reachable: "reachable example_two_tracks"
  by (rule reach_update[OF reach_init example_two_tracks_run])

theorem matching_iterates_ascending_ids_witness:
  "reachable example_two_tracks \<and> object_ids example_two_tracks = [0, 1] \<and>
   update example_two_tracks [example_det_far, example_det_a]
     = update_ascending example_two_tracks [example_det_far, example_det_a]"
proof -
  have ids: "object_ids example_two_tracks = [0, 1]"
    by (simp add: example_two_tracks_def object_ids_def tracker_eval example_dets)
  from matching_iterates_ascending_ids[of example_two_tracks "[example_det_far, example_det_a]"]
    example_two_tracks_reachable
  have "update example_two_tracks [example_det_far, example_det_a]
     = update_ascending example_two_tracks [example_det_far, example_det_a]" by blast
  with ids example_two_tracks_reachable show ?thesis by blast
qed

text \<open>
  Claim C9. Over any sequence of \<open>update\<close> calls from any state, the ids returned by the
  registrations are, in order of assignment, the consecutive integers from \<open>next_id\<close> on: each
  is strictly greater than all ids assigned before it. In a reachable state every id in the
  track table is below \<open>next_id\<close>, so an id that is (or was) in the table, removed or not,
  is smaller than every id assigned afterwards and is never assigned again.
\<close>

theorem track_ids_monotone_never_reused:
  "update_frames_reg s frames = Inr (s', ids) \<longrightarrow>
     ids = [next_id s .. next_id s' - 1] \<and> sorted_wrt (<) ids \<and>
     (\<forall>i \<in> set ids. next_id s \<le> i) \<and>
     (reachable s \<longrightarrow> (\<forall>oid \<in> set (object_ids s). \<forall>i \<in> set ids. oid < i))"
proof
  assume a: "update_frames_reg s frames = Inr (s', ids)"
  note e = update_frames_reg_ids[OF a]
  have 1: "ids = [next_id s .. next_id s' - 1]" using e by simp
  have 2: "sorted_wrt (<) ids" unfolding 1 by simp
  have 3: "\<forall>i \<in> set ids. next_id s \<le> i" unfolding 1 by simp
  have 4: "reachable s \<longrightarrow> (\<forall>oid \<in> set (object_ids s). \<forall>i \<in> set ids. oid < i)"
  proof (intro impI ballI)
    fix oid i assume r: "reachable s" and o: "oid \<in> set (object_ids s)" and i: "i \<in> set ids"
    from reachable_inv[OF r] have "\<forall>k \<in> set (map fst (objects s)). k < next_id s"
      unfolding tracker_inv_def by blast
    with o have "oid < next_id s" unfolding object_ids_def by blast
    with 3 i show "oid < i" by fastforce
  qed
  show "ids = [next_id s .. next_id s' - 1] \<and> sorted_wrt (<) ids \<and>
     (\<forall>i \<in> set ids. next_id s \<le> i) \<and>
     (reachable s \<longrightarrow> (\<forall>oid \<in> set (object_ids s). \<forall>i \<in> set ids. oid < i))"
    using 1 2 3 4 by blast
qed


theorem track_ids_monotone_never_reused_witness:
  "map_sum id snd (update_frames_reg (init_tracker 0 100)
          [[example_det_a], [], [example_det_a, example_det_far]]) = Inr [0, 1, 2] \<and>
   map_sum id (\<lambda>r. object_ids (fst r))
      (update_frames_reg (init_tracker 0 100) [[example_det_a], []]) = Inr [] \<and>
   reachable example_two_tracks \<and> object_ids example_two_tracks = [0, 1] \<and>
   map_sum id snd (update_frames_reg example_two_tracks [[example_detection (500, 0, 510, 10)]])
     = Inr [2] \<and>
   sorted_wrt (<) [0 :: int, 1, 2]"
proof -
  let ?X = "update_frames_reg (init_tracker 0 100) [[example_det_a], [], [example_det_a, example_det_far]]"
  let ?Y = "update_frames_reg example_two_tracks [[example_detection (500, 0, 510, 10)]]"
  have x: "map_sum id snd ?X = Inr [0, 1, 2]"
    by (simp add: tracker_eval example_dets)
  then obtain s' where x': "?X = Inr (s', [0, 1, 2])" by (cases ?X) auto
  have d: "map_sum id (\<lambda>r. object_ids (fst r))
      (update_frames_reg (init_tracker 0 100) [[example_det_a], []]) = Inr []"
    by (simp add: object_ids_def tracker_eval example_dets)
  have ids: "object_ids example_two_tracks = [0, 1]"
    by (simp add: example_two_tracks_def object_ids_def tracker_eval example_dets)
  have y: "map_sum id snd ?Y = Inr [2]"
    by (simp add: example_two_tracks_def tracker_eval example_dets)
  then obtain t' where y': "?Y = Inr (t', [2])" by (cases ?Y) auto
  from track_ids_monotone_never_reused[of "init_tracker 0 100"
         "[[example_det_a], [], [example_det_a, example_det_far]]" s' "[0, 1, 2]"] x'
  have a: "sorted_wrt (<) [0 :: int, 1, 2]" by blast
  from track_ids_monotone_never_reused[of example_two_tracks
         "[[example_detection (500, 0, 510, 10)]]" t' "[2]"] y' example_two_tracks_reachable
  have "\<forall>oid \<in> set (object_ids example_two_tracks). \<forall>i \<in> set [2 :: int]. oid < i" by blast
  show ?thesis using x d ids y a example_two_tracks_reachable by blast
qed

lemma update_frames_append:
  "update_frames s (xs @ ys) =
     (case update_frames s xs of Inl e \<Rightarrow> Inl e | Inr s' \<Rightarrow> update_frames s' ys)"
  by (induction xs arbitrary: s) (auto split: sum.splits)

lemma example_late_tracks_start:
  "update_frames (init_tracker 30 100) [[example_det_a], [example_det_a, example_det_far]]
     = Inr (example_late_tracks 0)"
  by (simp add: example_late_tracks_def tracker_eval example_dets)

lemma example_late_tracks_step:
  "0 \<le> k \<Longrightarrow> k \<le> 28 \<Longrightarrow> update (example_late_tracks k) [] = Inr (example_late_tracks (k + 1))"
  by (simp add: example_late_tracks_def update_def update_reg_def mark_disappeared_def
        init_tracker_def Let_def)

lemma example_late_tracks_run:
  "n \<le> 29 \<Longrightarrow> update_frames (example_late_tracks 0) (replicate n [])
     = Inr (example_late_tracks (int n))"
proof (induction n)
  case 0
  show ?case by simp
next
  case (Suc n)
  then have ih: "update_frames (example_late_tracks 0) (replicate n []) = Inr (example_late_tracks (int n))"
    and le: "int n \<le> 28" by simp_all
  have "replicate (Suc n) ([] :: detection list) = replicate n [] @ [[]]"
    by (simp add: replicate_append_same)
  then have "update_frames (example_late_tracks 0) (replicate (Suc n) [])
               = update_frames (example_late_tracks (int n)) [[]]"
    by (simp only: update_frames_append ih sum.case)
  also have "\<dots> = Inr (example_late_tracks (int n + 1))"
    using example_late_tracks_step[of "int n"] le by simp
  finally show ?case by (simp add: add.commute)
qed

lemma example_late_tracks_last:
  "object_ids (projr (update (example_late_tracks 29) [])) = [0]"
  by (simp add: object_ids_def example_late_tracks_def update_def update_reg_def
        mark_disappeared_def deregister_def init_tracker_def Let_def)

text \<open>
  Claim C2 at a failing input, \<open>max_disappeared = 30\<close>. The frames \<open>[a]\<close>, \<open>[a, far]\<close> leave
  track 0 (matched in the second frame) with counter 0 and track 1 (registered in the second
  frame) with counter 1, because the loop over the unmatched objects also visits the track
  that was registered a moment before. After 29 further frames without detections both tracks
  are in the table; after the 30th, track 0 is still there and track 1 is gone, although it
  has been unmatched for 30 consecutive frames only.
\<close>

theorem late_registered_track_removed_early:
  "update_frames (init_tracker 30 100) [[example_det_a], [example_det_a, example_det_far]]
     = Inr (example_late_tracks 0) \<and>
   map_of (disappeared (example_late_tracks 0)) 0 = Some 0 \<and>
   map_of (disappeared (example_late_tracks 0)) 1 = Some 1 \<and>
   object_ids (projr (update_frames (example_late_tracks 0) (replicate 29 []))) = [0, 1] \<and>
   object_ids (projr (update_frames (example_late_tracks 0) (replicate 30 []))) = [0]"
proof -
  have a: "update_frames (example_late_tracks 0) (replicate 29 []) = Inr (example_late_tracks 29)"
    using example_late_tracks_run[of 29] by simp
  have "(30 :: nat) = Suc 29" by simp
  then have "replicate 30 ([] :: detection list) = [] # replicate 29 []"
    by (simp only: replicate_Suc)
  then have "replicate 30 ([] :: detection list) = replicate 29 [] @ [[]]"
    by (simp only: replicate_append_same)
  then have "update_frames (example_late_tracks 0) (replicate 30 [])
               = update_frames (example_late_tracks 29) [[]]"
    by (simp only: update_frames_append a sum.case)
  then have b: "object_ids (projr (update_frames (example_late_tracks 0) (replicate 30 []))) = [0]"
    using example_late_tracks_last by (simp split: sum.splits)
  have c: "object_ids (example_late_tracks 29) = [0, 1]"
    by (simp add: object_ids_def example_late_tracks_def)
  have d: "map_of (disappeared (example_late_tracks 0)) 0 = Some 0"
    "map_of (disappeared (example_late_tracks 0)) 1 = Some 1"
    by (simp_all add: example_late_tracks_def)
  show ?thesis using example_late_tracks_start a b c d by simp
qed

lemma zone_counting_boundary_state:
  assumes "oid \<notin> counted_ids s"
    and "map_of (trajectory_points s) oid = Some points" and "5 \<le> length points"
    and "map_of (zone_entry_positions s) oid = Some 300"
    and "min_movement_to_count s = 50"
  shows "(snd (last points) = 349 \<longrightarrow> check_zone_counting s oid = (False, s)) \<and>
         (snd (last points) = 350 \<longrightarrow>
            check_zone_counting s oid = (True, s\<lparr>counted_ids := insert oid (counted_ids s)\<rparr>)) \<and>
         (fst (check_zone_counting s oid) \<longleftrightarrow> 350 \<le> snd (last points))"
  using assms by (auto simp: check_zone_counting_def Let_def)

text \<open>
  Claim C5. Zone counting is direction-sensitive and boundary-inclusive. In every reachable
  tracker state \<open>min_movement_to_count\<close> is 50, and for a track with a trajectory that is not
  yet counted and whose recorded entry y is 300: at current y 349 \<open>check_zone_counting\<close>
  returns \<open>False\<close> and changes nothing, at 350 it returns \<open>True\<close> and adds the id to
  \<open>counted_ids\<close>; in general it counts exactly when the current y is at least 350.
\<close>

theorem zone_counting_boundary:
  assumes "reachable s" and "oid \<notin> counted_ids s"
    and "map_of (trajectory_points s) oid = Some points"
    and "map_of (zone_entry_positions s) oid = Some 300"
  shows "min_movement_to_count s = 50 \<and>
         (snd (last points) = 349 \<longrightarrow> check_zone_counting s oid = (False, s)) \<and>
         (snd (last points) = 350 \<longrightarrow>
            check_zone_counting s oid = (True, s\<lparr>counted_ids := insert oid (counted_ids s)\<rparr>)) \<and>
         (fst (check_zone_counting s oid) \<longleftrightarrow> 350 \<le> snd (last points))"
proof -
  from reachable_zone_inv[OF assms(1)] have z: "zone_inv s" .
  then have m: "min_movement_to_count s = 50" by (simp add: zone_inv_def)
  from z assms(3,4) have l: "5 \<le> length points" unfolding zone_inv_def by blast
  from zone_counting_boundary_state[OF assms(2,3) l assms(4) m] m show ?thesis by blast
qed

lemma example_entered_reachable: "reachable example_entered_tracker"
  unfolding example_entered_tracker_def
  by (rule reachable_check_zone_snd[OF reachable_update_frames_projr[OF reach_init]])

lemma example_moved_reachable: "reachable (example_moved_tracker y1)"
  unfolding example_moved_tracker_def
  by (rule reachable_update_projr[OF example_entered_reachable])

lemma example_entered_value:
  "example_entered_tracker =
     (init_tracker 30 100)
       \<lparr> next_id := 1,
         objects := [(0, \<lparr> obj_bbox = (90, 290, 110, 310), obj_class = ''vehicle'',
                           obj_confidence = 0.9, obj_history = [(90, 290, 110, 310)] \<rparr>)],
         disappeared := [(0, 0)],
         trajectory_points := [(0, [(100, 300), (100, 300), (100, 300), (100, 300), (100, 300)])],
         zone_entry_positions := [(0, 300)] \<rparr>"
  by (simp add: example_entered_tracker_def check_zone_counting_def tracker_eval example_dets)

lemma example_moved_349:
  "map_of (trajectory_points (example_moved_tracker 366)) 0
     = Some [(100, 300), (100, 300), (100, 300), (100, 300), (100, 300), (100, 349)] \<and>
   map_of (zone_entry_positions (example_moved_tracker 366)) 0 = Some 300 \<and>
   0 \<notin> counted_ids (example_moved_tracker 366)"
  by (simp add: example_moved_tracker_def example_entered_value tracker_eval example_dets)

lemma example_moved_350:
  "map_of (trajectory_points (example_moved_tracker 367)) 0
     = Some [(100, 300), (100, 300), (100, 300), (100, 300), (100, 300), (100, 350)] \<and>
   map_of (zone_entry_positions (example_moved_tracker 367)) 0 = Some 300 \<and>
   0 \<notin> counted_ids (example_moved_tracker 367)"
  by (simp add: example_moved_tracker_def example_entered_value tracker_eval example_dets)

theorem zone_counting_boundary_witness:
  "reachable (example_moved_tracker 366) \<and>
   snd (last [(100 :: real, 300 :: real), (100, 300), (100, 300), (100, 300), (100, 300), (100, 349)]) = 349 \<and>
   check_zone_counting (example_moved_tracker 366) 0 = (False, example_moved_tracker 366) \<and>
   reachable (example_moved_tracker 367) \<and>
   check_zone_counting (example_moved_tracker 367) 0
     = (True, (example_moved_tracker 367)\<lparr>counted_ids := insert 0 (counted_ids (example_moved_tracker 367))\<rparr>)"
  using zone_counting_boundary[OF example_moved_reachable[of 366], of 0
          "[(100, 300), (100, 300), (100, 300), (100, 300), (100, 300), (100, 349)]"]
        zone_counting_boundary[OF example_moved_reachable[of 367], of 0
          "[(100, 300), (100, 300), (100, 300), (100, 300), (100, 300), (100, 350)]"]
        example_moved_349 example_moved_350 example_moved_reachable[of 366]
        example_moved_reachable[of 367]
  by simp

end
